theory Spec2Isabelle
  imports Main "HOL-Library.Word" "HOL-Library.AList"
begin

section \<open>Folder signing and verification of \<open>nvflare/lighter/utils.py\<close>\<close>

text \<open>
  The development embeds the signing half of \<open>nvflare/lighter/utils.py\<close>:
  \<open>sign_content\<close>, \<open>verify_content\<close>, \<open>verify_cert\<close>, \<open>sign_folders\<close>,
  \<open>verify_folder_signature\<close> and \<open>sign_all\<close>.

  What the module imports is kept apart from what it defines.
  \<^item> Python's own string and base64 codecs are written out (\<open>utf8_encode\<close>,
    \<open>utf8_decode\<close>, \<open>b64encode\<close>, \<open>b64decode\<close>).
  \<^item> The \<open>cryptography\<close> package, \<open>json\<close> and the two constants of
    \<open>nvflare.lighter.tool_consts\<close> (which is not part of the sources at hand) are the
    fields of the record \<open>env\<close>: every function below takes them as a parameter.
  \<^item> The file system is a tree of directories; an exception is a value of type
    \<open>error\<close>.
\<close>

subsection \<open>Bytes, text and exceptions\<close>

type_synonym byte = "8 word"
type_synonym bytes = "byte list"

text \<open>A Python \<open>str\<close> is a sequence of code points (numbers below \<open>0x110000\<close>,
  lone surrogates included, as in a file name decoded with \<open>surrogateescape\<close>).\<close>

type_synonym str = "nat list"

datatype error =
    UnicodeEncodeError
  | UnicodeDecodeError
  | BinasciiError
  | InvalidSignature
  | TypeError
  | AttributeError
  | ValueError
  | FileNotFoundError
  | IsADirectoryError
  | OSError

text \<open>The objects that reach \<open>sign_content\<close> and \<open>verify_content\<close>: a \<open>str\<close>, a
  \<open>bytes\<close>, or \<open>Other\<close>, an object that is neither and that the cryptography
  package does not take for bytes (a number, a list, a dict, a bool read from a
  manifest).\<close>

datatype pyobj = Str str | Bytes bytes | Other

subsection \<open>\<open>str.encode("utf-8")\<close> and \<open>bytes.decode("utf-8")\<close>\<close>

definition utf8_char :: "nat \<Rightarrow> error + bytes" where
  "utf8_char c =
    (if c < 0x80 then Inr [of_nat c]
     else if c < 0x800 then Inr [of_nat (0xC0 + c div 64), of_nat (0x80 + c mod 64)]
     else if 0xD800 \<le> c \<and> c \<le> 0xDFFF then Inl UnicodeEncodeError
     else if c < 0x10000 then
       Inr [of_nat (0xE0 + c div 4096), of_nat (0x80 + c div 64 mod 64),
            of_nat (0x80 + c mod 64)]
     else if c < 0x110000 then
       Inr [of_nat (0xF0 + c div 262144), of_nat (0x80 + c div 4096 mod 64),
            of_nat (0x80 + c div 64 mod 64), of_nat (0x80 + c mod 64)]
     else Inl UnicodeEncodeError)"

fun utf8_encode :: "str \<Rightarrow> error + bytes" where
  "utf8_encode [] = Inr []"
| "utf8_encode (c # cs) =
    (case utf8_char c of
       Inl e \<Rightarrow> Inl e
     | Inr bs \<Rightarrow> (case utf8_encode cs of Inl e \<Rightarrow> Inl e | Inr rest \<Rightarrow> Inr (bs @ rest)))"

definition in_range :: "nat \<Rightarrow> nat \<Rightarrow> byte \<Rightarrow> bool" where
  "in_range lo hi b = (lo \<le> unat b \<and> unat b \<le> hi)"

definition cont :: "byte \<Rightarrow> nat" where
  "cont b = unat b - 0x80"

definition decoded :: "nat \<Rightarrow> error + str \<Rightarrow> error + str" where
  "decoded c r = (case r of Inl e \<Rightarrow> Inl e | Inr cs \<Rightarrow> Inr (c # cs))"

fun utf8_decode :: "bytes \<Rightarrow> error + str" where
  "utf8_decode [] = Inr []"
| "utf8_decode (b0 # bs) =
    (let n0 = unat b0 in
     if n0 < 0x80 then decoded n0 (utf8_decode bs)
     else if 0xC2 \<le> n0 \<and> n0 \<le> 0xDF then
       (case bs of
          b1 # r \<Rightarrow>
            if in_range 0x80 0xBF b1
            then decoded ((n0 - 0xC0) * 64 + cont b1) (utf8_decode r)
            else Inl UnicodeDecodeError
        | _ \<Rightarrow> Inl UnicodeDecodeError)
     else if 0xE0 \<le> n0 \<and> n0 \<le> 0xEF then
       (case bs of
          b1 # b2 # r \<Rightarrow>
            if in_range (if n0 = 0xE0 then 0xA0 else 0x80) (if n0 = 0xED then 0x9F else 0xBF) b1
               \<and> in_range 0x80 0xBF b2
            then decoded ((n0 - 0xE0) * 4096 + cont b1 * 64 + cont b2) (utf8_decode r)
            else Inl UnicodeDecodeError
        | _ \<Rightarrow> Inl UnicodeDecodeError)
     else if 0xF0 \<le> n0 \<and> n0 \<le> 0xF4 then
       (case bs of
          b1 # b2 # b3 # r \<Rightarrow>
            if in_range (if n0 = 0xF0 then 0x90 else 0x80) (if n0 = 0xF4 then 0x8F else 0xBF) b1
               \<and> in_range 0x80 0xBF b2 \<and> in_range 0x80 0xBF b3
            then decoded ((n0 - 0xF0) * 262144 + cont b1 * 4096 + cont b2 * 64 + cont b3)
                   (utf8_decode r)
            else Inl UnicodeDecodeError
        | _ \<Rightarrow> Inl UnicodeDecodeError)
     else Inl UnicodeDecodeError)"

subsection \<open>\<open>base64.b64encode\<close> and \<open>base64.b64decode\<close>\<close>

text \<open>The alphabet of RFC 4648: \<open>A-Z\<close>, \<open>a-z\<close>, \<open>0-9\<close>, \<open>+\<close>, \<open>/\<close>, and \<open>=\<close> as the
  pad.\<close>

definition b64_char :: "nat \<Rightarrow> byte" where
  "b64_char n =
    (if n < 26 then of_nat (65 + n)
     else if n < 52 then of_nat (71 + n)
     else if n < 62 then of_nat (n - 4)
     else if n = 62 then 43
     else 47)"

definition b64_value :: "byte \<Rightarrow> nat option" where
  "b64_value c =
    (let n = unat c in
     if 65 \<le> n \<and> n \<le> 90 then Some (n - 65)
     else if 97 \<le> n \<and> n \<le> 122 then Some (n - 71)
     else if 48 \<le> n \<and> n \<le> 57 then Some (n + 4)
     else if n = 43 then Some 62
     else if n = 47 then Some 63
     else None)"

definition b64_pad :: byte where
  "b64_pad = 61"

fun b64encode :: "bytes \<Rightarrow> bytes" where
  "b64encode [] = []"
| "b64encode [a] =
    [b64_char (unat a div 4), b64_char (unat a mod 4 * 16), b64_pad, b64_pad]"
| "b64encode [a, b] =
    [b64_char (unat a div 4), b64_char (unat a mod 4 * 16 + unat b div 16),
     b64_char (unat b mod 16 * 4), b64_pad]"
| "b64encode (a # b # c # rest) =
    [b64_char (unat a div 4), b64_char (unat a mod 4 * 16 + unat b div 16),
     b64_char (unat b mod 16 * 4 + unat c div 64), b64_char (unat c mod 64)]
    @ b64encode rest"

text \<open>\<open>b64decode(s)\<close> with its default \<open>validate=False\<close> is \<open>binascii.a2b_base64\<close>
  outside strict mode: a byte outside the alphabet is dropped, a pad that completes a
  quad ends the data, and a quad left open at the end is an error. The state is the
  position \<open>quad_pos\<close> in the quad, the bits \<open>leftchar\<close> carried over, the pads seen
  and the output so far.\<close>

fun a2b_base64 :: "bytes \<Rightarrow> nat \<Rightarrow> nat \<Rightarrow> nat \<Rightarrow> bytes \<Rightarrow> error + bytes" where
  "a2b_base64 [] quad_pos leftchar pads out =
    (if quad_pos \<noteq> 0 then Inl BinasciiError else Inr out)"
| "a2b_base64 (this_ch # rest) quad_pos leftchar pads out =
    (if this_ch = b64_pad then
       (if quad_pos \<ge> 2 \<and> quad_pos + (pads + 1) \<ge> 4 then Inr out
        else a2b_base64 rest quad_pos leftchar (if quad_pos \<ge> 2 then pads + 1 else pads) out)
     else
       (case b64_value this_ch of
          None \<Rightarrow> a2b_base64 rest quad_pos leftchar pads out
        | Some v \<Rightarrow>
            if quad_pos = 0 then a2b_base64 rest 1 v 0 out
            else if quad_pos = 1 then
              a2b_base64 rest 2 (v mod 16) 0 (out @ [of_nat (leftchar * 4 + v div 16)])
            else if quad_pos = 2 then
              a2b_base64 rest 3 (v mod 4) 0 (out @ [of_nat (leftchar * 16 + v div 4)])
            else a2b_base64 rest 0 0 0 (out @ [of_nat (leftchar * 64 + v)])))"

definition b64decode :: "bytes \<Rightarrow> error + bytes" where
  "b64decode s = a2b_base64 s 0 0 0 []"

subsection \<open>What the module imports\<close>

datatype hash_algorithm = MD5 | SHA1 | SHA224 | SHA256 | SHA384 | SHA512

datatype mgf = MGF1 hash_algorithm

datatype salt_length = MAX_LENGTH | DIGEST_LENGTH | Salt_Length nat

datatype padding = PSS mgf salt_length | PKCS1v15

text \<open>An X.509 certificate as \<open>cryptography.x509\<close> presents it: the fields
  \<open>verify_cert\<close> reads, the subject's public key, and the validity period.\<close>

record 'pk certificate =
  cert_signature :: bytes
  cert_tbs_certificate_bytes :: bytes
  cert_signature_hash_algorithm :: hash_algorithm
  cert_public_key :: 'pk
  cert_not_valid_before :: int
  cert_not_valid_after :: int

text \<open>A value returned by \<open>json.load\<close>. (A JSON number is kept as an integer: the
  code only tests whether a value is a string and whether it is true.)\<close>

datatype json =
    JNull
  | JBool bool
  | JNum int
  | JStr str
  | JArr "json list"
  | JObj "(str \<times> json) list"

text \<open>
  \<^item> \<open>rsa_sign key data padding algorithm entropy\<close> is \<open>key.sign(data, padding,
    algorithm)\<close>; PSS signing draws a random salt, which is the last argument.
  \<^item> \<open>rsa_verify key signature data padding algorithm\<close> is \<open>key.verify(...)\<close>:
    \<open>False\<close> stands for \<open>InvalidSignature\<close>.
  \<^item> \<open>urandom i\<close> is the entropy drawn by the \<open>i\<close>-th signing call of a run.
  \<^item> \<open>load_pem_x509_certificate\<close> and \<open>json_load\<close> give \<open>None\<close> where Python
    raises (\<open>json_load\<close> stands for \<open>json.load\<close> of a file opened in text mode).
  \<^item> \<open>json_dump\<close> is the text \<open>json.dump\<close> writes for a dict of strings.
  \<^item> \<open>NVFLARE_SIG_FILE\<close> and \<open>NVFLARE_SUBMITTER_CRT_FILE\<close> are the two constants
    of \<open>nvflare.lighter.tool_consts\<close>.
\<close>

record ('sk, 'pk) env =
  rsa_sign :: "'sk \<Rightarrow> bytes \<Rightarrow> padding \<Rightarrow> hash_algorithm \<Rightarrow> nat \<Rightarrow> bytes"
  rsa_verify :: "'pk \<Rightarrow> bytes \<Rightarrow> bytes \<Rightarrow> padding \<Rightarrow> hash_algorithm \<Rightarrow> bool"
  urandom :: "nat \<Rightarrow> nat"
  load_pem_x509_certificate :: "bytes \<Rightarrow> 'pk certificate option"
  json_load :: "bytes \<Rightarrow> json option"
  json_dump :: "(str \<times> pyobj) list \<Rightarrow> bytes"
  NVFLARE_SIG_FILE :: str
  NVFLARE_SUBMITTER_CRT_FILE :: str

subsection \<open>Signing and verifying content\<close>

definition content_padding :: padding where
  "content_padding = PSS (MGF1 SHA256) MAX_LENGTH"

definition content_hash_algo :: hash_algorithm where
  "content_hash_algo = SHA256"

text \<open>The first lines of \<open>sign_content\<close> and \<open>verify_content\<close>: a \<open>str\<close> is encoded,
  anything else is passed on as it is.\<close>

definition to_bytes :: "pyobj \<Rightarrow> error + pyobj" where
  "to_bytes content =
    (case content of
       Str s \<Rightarrow> (case utf8_encode s of Inl e \<Rightarrow> Inl e | Inr b \<Rightarrow> Inr (Bytes b))
     | _ \<Rightarrow> Inr content)"

definition sign_content ::
  "('sk, 'pk) env \<Rightarrow> pyobj \<Rightarrow> 'sk \<Rightarrow> bool \<Rightarrow> nat \<Rightarrow> error + pyobj" where
  "sign_content E content signing_pri_key return_str entropy =
    (case to_bytes content of
       Inl e \<Rightarrow> Inl e
     | Inr (Bytes data) \<Rightarrow>
         (let signature = rsa_sign E signing_pri_key data content_padding content_hash_algo entropy
          in if return_str then
               (case utf8_decode (b64encode signature) of
                  Inl e \<Rightarrow> Inl e
                | Inr s \<Rightarrow> Inr (Str s))
             else Inr (Bytes signature))
     | Inr _ \<Rightarrow> Inl TypeError)"

definition signature_bytes :: "pyobj \<Rightarrow> error + pyobj" where
  "signature_bytes signature =
    (case signature of
       Str s \<Rightarrow>
         (case utf8_encode s of
            Inl e \<Rightarrow> Inl e
          | Inr b \<Rightarrow> (case b64decode b of Inl e \<Rightarrow> Inl e | Inr raw \<Rightarrow> Inr (Bytes raw)))
     | _ \<Rightarrow> Inr signature)"

definition verify_content ::
  "('sk, 'pk) env \<Rightarrow> pyobj \<Rightarrow> pyobj \<Rightarrow> 'pk \<Rightarrow> error + unit" where
  "verify_content E content signature public_key =
    (case to_bytes content of
       Inl e \<Rightarrow> Inl e
     | Inr content' \<Rightarrow>
         (case signature_bytes signature of
            Inl e \<Rightarrow> Inl e
          | Inr signature' \<Rightarrow>
              (case (signature', content') of
                 (Bytes sig, Bytes data) \<Rightarrow>
                   if rsa_verify E public_key sig data content_padding content_hash_algo
                   then Inr () else Inl InvalidSignature
               | _ \<Rightarrow> Inl TypeError)))"

definition verify_cert ::
  "('sk, 'pk) env \<Rightarrow> 'pk certificate \<Rightarrow> 'pk \<Rightarrow> error + unit" where
  "verify_cert E cert_to_be_verified root_ca_public_key =
    (if rsa_verify E root_ca_public_key (cert_signature cert_to_be_verified)
          (cert_tbs_certificate_bytes cert_to_be_verified) PKCS1v15
          (cert_signature_hash_algorithm cert_to_be_verified)
     then Inr () else Inl InvalidSignature)"

definition load_crt_bytes :: "('sk, 'pk) env \<Rightarrow> bytes \<Rightarrow> error + 'pk certificate" where
  "load_crt_bytes E data =
    (case load_pem_x509_certificate E data of None \<Rightarrow> Inl ValueError | Some cert \<Rightarrow> Inr cert)"

text \<open>\<open>load_crt(path)\<close>: the argument is what \<open>open(path, "rb").read()\<close> gives.\<close>

definition load_crt :: "('sk, 'pk) env \<Rightarrow> error + bytes \<Rightarrow> error + 'pk certificate" where
  "load_crt E file = (case file of Inl e \<Rightarrow> Inl e | Inr data \<Rightarrow> load_crt_bytes E data)"

subsection \<open>The file system\<close>

text \<open>
  A directory holds its entries that are not directories (a regular file with its
  bytes, or a socket, which \<open>open\<close> refuses) and its subdirectories, each list in the
  order \<open>os.scandir\<close> gives. These are the two lists \<open>os.walk\<close> hands to the loop
  body. Symbolic links and permissions are not modelled: a regular file can be read
  and a directory can be listed and written to.
\<close>

datatype entry = File bytes | Socket

datatype dir = Dir "(str \<times> entry) list" "(str \<times> dir) list"

fun files_of :: "dir \<Rightarrow> (str \<times> entry) list" where
  "files_of (Dir files subdirs) = files"

fun subdirs_of :: "dir \<Rightarrow> (str \<times> dir) list" where
  "subdirs_of (Dir files subdirs) = subdirs"

text \<open>No two entries of a directory share a name.\<close>

fun wf_dir :: "dir \<Rightarrow> bool" where
  "wf_dir (Dir files subdirs) =
    (distinct (map fst files @ map fst subdirs) \<and> (\<forall>(name, d) \<in> set subdirs. wf_dir d))"

text \<open>\<open>open(os.path.join(root, name), "rb").read()\<close> in the directory with the
  entries \<open>files\<close> and the subdirectories named \<open>folders\<close>.\<close>

definition open_read :: "(str \<times> entry) list \<Rightarrow> str list \<Rightarrow> str \<Rightarrow> error + bytes" where
  "open_read files folders name =
    (if name \<in> set folders then Inl IsADirectoryError
     else (case map_of files name of
             None \<Rightarrow> Inl FileNotFoundError
           | Some Socket \<Rightarrow> Inl OSError
           | Some (File data) \<Rightarrow> Inr data))"

text \<open>Opening \<open>os.path.join(root, name)\<close> for writing and writing \<open>data\<close>: the file is
  created or replaced.\<close>

definition write_file ::
  "(str \<times> entry) list \<Rightarrow> str list \<Rightarrow> str \<Rightarrow> bytes \<Rightarrow> error + (str \<times> entry) list" where
  "write_file files folders name data =
    (if name \<in> set folders then Inl IsADirectoryError
     else (case map_of files name of
             Some Socket \<Rightarrow> Inl OSError
           | _ \<Rightarrow> Inr (AList.update name (File data) files)))"

text \<open>\<open>shutil.copyfile(src, os.path.join(root, name))\<close>, where \<open>src\<close> is what reading
  the source path gives: the source is opened first.\<close>

definition copyfile ::
  "error + bytes \<Rightarrow> (str \<times> entry) list \<Rightarrow> str list \<Rightarrow> str \<Rightarrow> error + (str \<times> entry) list" where
  "copyfile src files folders name =
    (case src of Inl e \<Rightarrow> Inl e | Inr data \<Rightarrow> write_file files folders name data)"

definition listdir :: "dir \<Rightarrow> str list" where
  "listdir d = map fst (files_of d) @ map fst (subdirs_of d)"

definition isfile :: "dir \<Rightarrow> str \<Rightarrow> bool" where
  "isfile d name =
    (name \<notin> set (map fst (subdirs_of d)) \<and>
     (case map_of (files_of d) name of Some (File data) \<Rightarrow> True | _ \<Rightarrow> False))"

text \<open>\<open>os.walk(top)\<close>, top down: each directory once, before its subdirectories, as
  the pair of its non-directory entries (which stand for \<open>root\<close> and \<open>files\<close>) and the
  names of its subdirectories (\<open>folders\<close>).\<close>

fun os_walk :: "dir \<Rightarrow> ((str \<times> entry) list \<times> str list) list" where
  "os_walk (Dir files subdirs) =
    (files, map fst subdirs) # concat (map (\<lambda>(name, d). os_walk d) subdirs)"

subsection \<open>\<open>verify_folder_signature\<close>\<close>

definition signatures_get :: "json \<Rightarrow> str \<Rightarrow> error + json option" where
  "signatures_get signatures name =
    (case signatures of JObj items \<Rightarrow> Inr (map_of items name) | _ \<Rightarrow> Inl AttributeError)"

text \<open>\<open>if signature:\<close> on what \<open>signatures.get\<close> returned.\<close>

definition truthy :: "json option \<Rightarrow> bool" where
  "truthy v =
    (case v of
       None \<Rightarrow> False
     | Some JNull \<Rightarrow> False
     | Some (JBool b) \<Rightarrow> b
     | Some (JNum n) \<Rightarrow> n \<noteq> 0
     | Some (JStr s) \<Rightarrow> s \<noteq> []
     | Some (JArr xs) \<Rightarrow> xs \<noteq> []
     | Some (JObj items) \<Rightarrow> items \<noteq> [])"

definition json_pyobj :: "json option \<Rightarrow> pyobj" where
  "json_pyobj v = (case v of Some (JStr s) \<Rightarrow> Str s | _ \<Rightarrow> Other)"

text \<open>The inner \<open>try\<close> block: \<open>None\<close> when anything in it raises.\<close>

definition load_signatures ::
  "('sk, 'pk) env \<Rightarrow> (str \<times> entry) list \<Rightarrow> str list \<Rightarrow> (json \<times> 'pk certificate) option" where
  "load_signatures E files folders =
    (case open_read files folders (NVFLARE_SIG_FILE E) of
       Inl e \<Rightarrow> None
     | Inr text \<Rightarrow>
         (case json_load E text of
            None \<Rightarrow> None
          | Some signatures \<Rightarrow>
              (case load_crt E (open_read files folders (NVFLARE_SUBMITTER_CRT_FILE E)) of
                 Inl e \<Rightarrow> None
               | Inr cert \<Rightarrow> Some (signatures, cert))))"

text \<open>One round of \<open>for file in files\<close>, after the test for the reserved names.\<close>

definition verify_file ::
  "('sk, 'pk) env \<Rightarrow> json \<Rightarrow> 'pk \<Rightarrow> (str \<times> entry) list \<Rightarrow> str list \<Rightarrow> str \<Rightarrow> error + unit" where
  "verify_file E signatures public_key files folders file =
    (case signatures_get signatures file of
       Inl e \<Rightarrow> Inl e
     | Inr signature \<Rightarrow>
         if truthy signature then
           (case open_read files folders file of
              Inl e \<Rightarrow> Inl e
            | Inr content \<Rightarrow> verify_content E (Bytes content) (json_pyobj signature) public_key)
         else Inr ())"

fun verify_files ::
  "('sk, 'pk) env \<Rightarrow> json \<Rightarrow> 'pk \<Rightarrow> (str \<times> entry) list \<Rightarrow> str list \<Rightarrow> str list
    \<Rightarrow> error + unit" where
  "verify_files E signatures public_key files folders [] = Inr ()"
| "verify_files E signatures public_key files folders (file # rest) =
    (if file = NVFLARE_SIG_FILE E \<or> file = NVFLARE_SUBMITTER_CRT_FILE E
     then verify_files E signatures public_key files folders rest
     else (case verify_file E signatures public_key files folders file of
             Inl e \<Rightarrow> Inl e
           | Inr u \<Rightarrow> verify_files E signatures public_key files folders rest))"

text \<open>One round of \<open>for folder in folders\<close>.\<close>

definition verify_folder ::
  "('sk, 'pk) env \<Rightarrow> json \<Rightarrow> 'pk \<Rightarrow> str \<Rightarrow> error + unit" where
  "verify_folder E signatures public_key folder =
    (case signatures_get signatures folder of
       Inl e \<Rightarrow> Inl e
     | Inr signature \<Rightarrow>
         if truthy signature
         then verify_content E (Str folder) (json_pyobj signature) public_key
         else Inr ())"

fun verify_folders :: "('sk, 'pk) env \<Rightarrow> json \<Rightarrow> 'pk \<Rightarrow> str list \<Rightarrow> error + unit" where
  "verify_folders E signatures public_key [] = Inr ()"
| "verify_folders E signatures public_key (folder # rest) =
    (case verify_folder E signatures public_key folder of
       Inl e \<Rightarrow> Inl e
     | Inr u \<Rightarrow> verify_folders E signatures public_key rest)"

text \<open>What follows the inner \<open>try\<close> block in the loop body.\<close>

definition verify_checks ::
  "('sk, 'pk) env \<Rightarrow> 'pk \<Rightarrow> json \<Rightarrow> 'pk certificate \<Rightarrow> (str \<times> entry) list \<Rightarrow> str list
    \<Rightarrow> error + unit" where
  "verify_checks E root_ca_public_key signatures cert files folders =
    (case verify_cert E cert root_ca_public_key of
       Inl e \<Rightarrow> Inl e
     | Inr u \<Rightarrow>
         (case verify_files E signatures (cert_public_key cert) files folders (map fst files) of
            Inl e \<Rightarrow> Inl e
          | Inr u \<Rightarrow> verify_folders E signatures (cert_public_key cert) folders))"

text \<open>The body of \<open>for root, folders, files in os.walk(src_folder)\<close>: \<open>Inr ()\<close> when
  the loop goes on (also after \<open>continue\<close>), \<open>Inl e\<close> when the body raises \<open>e\<close>.\<close>

definition verify_dir ::
  "('sk, 'pk) env \<Rightarrow> 'pk \<Rightarrow> (str \<times> entry) list \<times> str list \<Rightarrow> error + unit" where
  "verify_dir E root_ca_public_key listing =
    (case load_signatures E (fst listing) (snd listing) of
       None \<Rightarrow> Inr ()
     | Some (signatures, cert) \<Rightarrow>
         verify_checks E root_ca_public_key signatures cert (fst listing) (snd listing))"

fun verify_loop ::
  "('sk, 'pk) env \<Rightarrow> 'pk \<Rightarrow> ((str \<times> entry) list \<times> str list) list \<Rightarrow> error + unit" where
  "verify_loop E root_ca_public_key [] = Inr ()"
| "verify_loop E root_ca_public_key (listing # rest) =
    (case verify_dir E root_ca_public_key listing of
       Inl e \<Rightarrow> Inl e
     | Inr u \<Rightarrow> verify_loop E root_ca_public_key rest)"

text \<open>The outer \<open>try\<close> block, up to \<open>return True\<close>.\<close>

definition verify_folder_signature_try ::
  "('sk, 'pk) env \<Rightarrow> dir \<Rightarrow> error + bytes \<Rightarrow> error + bool" where
  "verify_folder_signature_try E src_folder root_ca_file =
    (case load_crt E root_ca_file of
       Inl e \<Rightarrow> Inl e
     | Inr root_ca_cert \<Rightarrow>
         (case verify_loop E (cert_public_key root_ca_cert) (os_walk src_folder) of
            Inl e \<Rightarrow> Inl e
          | Inr u \<Rightarrow> Inr True))"

text \<open>\<open>verify_folder_signature(src_folder, root_ca_path)\<close>: \<open>src_folder\<close> is the tree
  at that path, \<open>root_ca_file\<close> what reading \<open>root_ca_path\<close> gives. The result is
  \<open>Inr b\<close> when the call returns \<open>b\<close> and \<open>Inl e\<close> when it raises \<open>e\<close>.\<close>

definition verify_folder_signature ::
  "('sk, 'pk) env \<Rightarrow> dir \<Rightarrow> error + bytes \<Rightarrow> error + bool" where
  "verify_folder_signature E src_folder root_ca_file =
    (case verify_folder_signature_try E src_folder root_ca_file of
       Inl e \<Rightarrow> Inr False
     | Inr b \<Rightarrow> Inr b)"

subsection \<open>\<open>sign_folders\<close>\<close>

text \<open>\<open>for file in files\<close>: the dict \<open>signatures\<close> and the number of signing calls made
  so far are threaded through the loop.\<close>

fun sign_files ::
  "('sk, 'pk) env \<Rightarrow> 'sk \<Rightarrow> (str \<times> entry) list \<Rightarrow> str list \<Rightarrow> str list
    \<Rightarrow> (str \<times> pyobj) list \<times> nat \<Rightarrow> error + (str \<times> pyobj) list \<times> nat" where
  "sign_files E signing_pri_key files folders [] acc = Inr acc"
| "sign_files E signing_pri_key files folders (file # rest) acc =
    (if file = NVFLARE_SIG_FILE E \<or> file = NVFLARE_SUBMITTER_CRT_FILE E
     then sign_files E signing_pri_key files folders rest acc
     else (case open_read files folders file of
             Inl e \<Rightarrow> Inl e
           | Inr content \<Rightarrow>
               (case sign_content E (Bytes content) signing_pri_key True (urandom E (snd acc)) of
                  Inl e \<Rightarrow> Inl e
                | Inr s \<Rightarrow>
                    sign_files E signing_pri_key files folders rest
                      (AList.update file s (fst acc), Suc (snd acc)))))"

text \<open>\<open>for folder in folders\<close>.\<close>

fun sign_names ::
  "('sk, 'pk) env \<Rightarrow> 'sk \<Rightarrow> str list \<Rightarrow> (str \<times> pyobj) list \<times> nat
    \<Rightarrow> error + (str \<times> pyobj) list \<times> nat" where
  "sign_names E signing_pri_key [] acc = Inr acc"
| "sign_names E signing_pri_key (folder # rest) acc =
    (case sign_content E (Str folder) signing_pri_key True (urandom E (snd acc)) of
       Inl e \<Rightarrow> Inl e
     | Inr s \<Rightarrow> sign_names E signing_pri_key rest (AList.update folder s (fst acc), Suc (snd acc)))"

text \<open>How a round of the loop ends: the loop goes on, it is left by \<open>break\<close>, or the
  body raises.\<close>

datatype signal = Next | Break | Raise error

text \<open>The dict \<open>signatures\<close> of one round: both inner loops, from the empty dict.\<close>

definition sign_entries ::
  "('sk, 'pk) env \<Rightarrow> 'sk \<Rightarrow> (str \<times> entry) list \<Rightarrow> str list \<Rightarrow> nat
    \<Rightarrow> error + (str \<times> pyobj) list \<times> nat" where
  "sign_entries E signing_pri_key files folders calls =
    (case sign_files E signing_pri_key files folders (map fst files) ([], calls) of
       Inl e \<Rightarrow> Inl e
     | Inr acc \<Rightarrow> sign_names E signing_pri_key folders acc)"

text \<open>The body of \<open>for root, folders, files in os.walk(folder)\<close> on the state
  \<open>(depth, calls)\<close>: the entries of \<open>root\<close> afterwards, the new state and the
  signal. \<open>crt_file\<close> is what reading \<open>crt_path\<close> gives.\<close>

definition sign_dir ::
  "('sk, 'pk) env \<Rightarrow> 'sk \<Rightarrow> error + bytes \<Rightarrow> int \<Rightarrow> (str \<times> entry) list \<Rightarrow> str list
    \<Rightarrow> int \<times> nat \<Rightarrow> (str \<times> entry) list \<times> (int \<times> nat) \<times> signal" where
  "sign_dir E signing_pri_key crt_file max_depth files folders st =
    (let depth = fst st + 1 in
     case sign_entries E signing_pri_key files folders (snd st) of
       Inl e \<Rightarrow> (files, (depth, snd st), Raise e)
     | Inr (signatures, calls) \<Rightarrow>
         (case write_file files folders (NVFLARE_SIG_FILE E) (json_dump E signatures) of
            Inl e \<Rightarrow> (files, (depth, calls), Raise e)
          | Inr files1 \<Rightarrow>
              (case copyfile crt_file files1 folders (NVFLARE_SUBMITTER_CRT_FILE E) of
                 Inl e \<Rightarrow> (files1, (depth, calls), Raise e)
               | Inr files2 \<Rightarrow>
                   (files2, (depth, calls), if depth \<ge> max_depth then Break else Next))))"

text \<open>The loop over \<open>os.walk\<close>, which writes into the tree it walks: the body runs on a
  directory, then the walk descends into its subdirectories in order, and stops for
  good at \<open>break\<close> or at an exception. The result is the tree afterwards, the state
  and the signal.\<close>

fun sign_walk ::
    "('sk, 'pk) env \<Rightarrow> 'sk \<Rightarrow> error + bytes \<Rightarrow> int \<Rightarrow> dir \<Rightarrow> int \<times> nat
      \<Rightarrow> dir \<times> (int \<times> nat) \<times> signal"
  and sign_subdirs ::
    "('sk, 'pk) env \<Rightarrow> 'sk \<Rightarrow> error + bytes \<Rightarrow> int \<Rightarrow> (str \<times> dir) list \<Rightarrow> int \<times> nat
      \<Rightarrow> (str \<times> dir) list \<times> (int \<times> nat) \<times> signal" where
  "sign_walk E signing_pri_key crt_file max_depth (Dir files subdirs) st =
    (case sign_dir E signing_pri_key crt_file max_depth files (map fst subdirs) st of
       (files', st', Next) \<Rightarrow>
         (case sign_subdirs E signing_pri_key crt_file max_depth subdirs st' of
            (subdirs', st'', sg) \<Rightarrow> (Dir files' subdirs', st'', sg))
     | (files', st', sg) \<Rightarrow> (Dir files' subdirs, st', sg))"
| "sign_subdirs E signing_pri_key crt_file max_depth [] st = ([], st, Next)"
| "sign_subdirs E signing_pri_key crt_file max_depth ((name, d) # rest) st =
    (case sign_walk E signing_pri_key crt_file max_depth d st of
       (d', st', Next) \<Rightarrow>
         (case sign_subdirs E signing_pri_key crt_file max_depth rest st' of
            (rest', st'', sg) \<Rightarrow> ((name, d') # rest', st'', sg))
     | (d', st', sg) \<Rightarrow> ((name, d') # rest, st', sg))"

text \<open>\<open>sign_folders(folder, signing_pri_key, crt_path, max_depth)\<close>: the tree at
  \<open>folder\<close> afterwards, and \<open>Inr ()\<close> when the call returns or \<open>Inl e\<close> when it raises
  \<open>e\<close>.\<close>

definition sign_folders ::
  "('sk, 'pk) env \<Rightarrow> dir \<Rightarrow> 'sk \<Rightarrow> error + bytes \<Rightarrow> int \<Rightarrow> dir \<times> (error + unit)" where
  "sign_folders E folder signing_pri_key crt_file max_depth =
    (case sign_walk E signing_pri_key crt_file max_depth folder (0, 0) of
       (folder', st, Raise e) \<Rightarrow> (folder', Inl e)
     | (folder', st, sg) \<Rightarrow> (folder', Inr ()))"

subsection \<open>\<open>sign_all\<close>\<close>

fun sign_all_loop ::
  "('sk, 'pk) env \<Rightarrow> dir \<Rightarrow> 'sk \<Rightarrow> str list \<Rightarrow> (str \<times> pyobj) list \<times> nat
    \<Rightarrow> error + (str \<times> pyobj) list \<times> nat" where
  "sign_all_loop E content_folder signing_pri_key [] acc = Inr acc"
| "sign_all_loop E content_folder signing_pri_key (f # rest) acc =
    (if isfile content_folder f then
       (case open_read (files_of content_folder) (map fst (subdirs_of content_folder)) f of
          Inl e \<Rightarrow> Inl e
        | Inr content \<Rightarrow>
            (case sign_content E (Bytes content) signing_pri_key True (urandom E (snd acc)) of
               Inl e \<Rightarrow> Inl e
             | Inr s \<Rightarrow>
                 sign_all_loop E content_folder signing_pri_key rest
                   (AList.update f s (fst acc), Suc (snd acc))))
     else sign_all_loop E content_folder signing_pri_key rest acc)"

text \<open>\<open>sign_all(content_folder, signing_pri_key)\<close>: the directory afterwards (the
  function has no statement that writes) and the dict returned.\<close>

definition sign_all ::
  "('sk, 'pk) env \<Rightarrow> dir \<Rightarrow> 'sk \<Rightarrow> dir \<times> (error + (str \<times> pyobj) list)" where
  "sign_all E content_folder signing_pri_key =
    (content_folder,
     case sign_all_loop E content_folder signing_pri_key (listdir content_folder) ([], 0) of
       Inl e \<Rightarrow> Inl e
     | Inr acc \<Rightarrow> Inr (fst acc))"

subsection \<open>Notions used in the statements\<close>

text \<open>A \<open>str\<close> that \<open>encode("utf-8")\<close> accepts: code points, none of them a
  surrogate.\<close>

definition encodable :: "str \<Rightarrow> bool" where
  "encodable s = list_all (\<lambda>c. c < 0xD800 \<or> (0xDFFF < c \<and> c < 0x110000)) s"

text \<open>\<open>pub\<close> is the public key of \<open>priv\<close>: it accepts every signature \<open>priv\<close> makes
  with the padding and hash of \<open>sign_content\<close>.\<close>

definition key_pair :: "('sk, 'pk) env \<Rightarrow> 'sk \<Rightarrow> 'pk \<Rightarrow> bool" where
  "key_pair E priv pub =
    (\<forall>data entropy.
       rsa_verify E pub (rsa_sign E priv data content_padding content_hash_algo entropy) data
         content_padding content_hash_algo)"

subsection \<open>A stand-in library\<close>

text \<open>
  To run the definitions on concrete inputs the parameters need values. \<open>toy_env\<close> is
  a stand-in with no cryptographic strength: a key is a number, a signature is the
  key, a tag for the padding and the entropy in front of the data, and the PEM and
  JSON readers are tables.
\<close>

definition str_of :: "string \<Rightarrow> str" where
  "str_of s = map of_char s"

definition pad_tag :: "padding \<Rightarrow> byte" where
  "pad_tag p = (case p of PSS m s \<Rightarrow> 1 | PKCS1v15 \<Rightarrow> 2)"

definition toy_sign :: "nat \<Rightarrow> bytes \<Rightarrow> padding \<Rightarrow> hash_algorithm \<Rightarrow> nat \<Rightarrow> bytes" where
  "toy_sign key data pad alg entropy = of_nat key # pad_tag pad # of_nat entropy # data"

definition toy_verify :: "nat \<Rightarrow> bytes \<Rightarrow> bytes \<Rightarrow> padding \<Rightarrow> hash_algorithm \<Rightarrow> bool" where
  "toy_verify key sig data pad alg =
    (case sig of
       k # t # r # d \<Rightarrow> k = of_nat key \<and> t = pad_tag pad \<and> d = data
     | _ \<Rightarrow> False)"

definition toy_json_dump :: "(str \<times> pyobj) list \<Rightarrow> bytes" where
  "toy_json_dump d = concat (map (\<lambda>(k, v). map of_nat k @ [58]) d)"

definition toy_env ::
  "(bytes \<times> json) list \<Rightarrow> (bytes \<times> nat certificate) list \<Rightarrow> (nat, nat) env" where
  "toy_env manifests certs =
    \<lparr> rsa_sign = toy_sign,
      rsa_verify = toy_verify,
      urandom = (\<lambda>i. i),
      load_pem_x509_certificate = map_of certs,
      json_load = map_of manifests,
      json_dump = toy_json_dump,
      NVFLARE_SIG_FILE = str_of ''.__nvfl_sig.json'',
      NVFLARE_SUBMITTER_CRT_FILE = str_of ''.__nvfl_submitter.crt'' \<rparr>"

text \<open>Removing the file \<open>name\<close> from the directory reached from the root through the
  subdirectories \<open>path\<close> (as \<open>os.remove\<close> would, between signing and verifying).\<close>

fun remove_file :: "str list \<Rightarrow> str \<Rightarrow> dir \<Rightarrow> dir" where
  "remove_file [] name (Dir files subdirs) = Dir (AList.delete name files) subdirs"
| "remove_file (p # path) name (Dir files subdirs) =
    Dir files (map (\<lambda>(n, d). if n = p then (n, remove_file path name d) else (n, d)) subdirs)"

text \<open>A manifest without the keys outside \<open>keep\<close>.\<close>

definition restrict_keys :: "str set \<Rightarrow> json \<Rightarrow> json" where
  "restrict_keys keep signatures =
    (case signatures of JObj items \<Rightarrow> JObj (AList.restrict keep items) | _ \<Rightarrow> signatures)"

subsection \<open>A worked example\<close>

text \<open>
  Under the stand-in library: a root certificate with the key \<open>1\<close> (the PEM text
  \<open>[1]\<close>), a submitter certificate with the key \<open>5\<close> issued by it (the PEM text
  \<open>[2]\<close>), and three manifests for a file \<open>a\<close> holding the byte \<open>0x61\<close>: the text
  \<open>[10]\<close> records the signature of the file, \<open>[11]\<close> an empty string, \<open>[12]\<close> the
  string \<open>AAAA\<close>.
\<close>

definition example_ca :: "nat certificate" where
  "example_ca =
    \<lparr> cert_signature = [], cert_tbs_certificate_bytes = [],
      cert_signature_hash_algorithm = SHA256, cert_public_key = 1,
      cert_not_valid_before = 0, cert_not_valid_after = 1 \<rparr>"

definition example_cert :: "nat certificate" where
  "example_cert =
    \<lparr> cert_signature = toy_sign 1 [9] PKCS1v15 SHA256 0, cert_tbs_certificate_bytes = [9],
      cert_signature_hash_algorithm = SHA256, cert_public_key = 5,
      cert_not_valid_before = 0, cert_not_valid_after = 1 \<rparr>"

definition example_signature :: str where
  "example_signature =
    map unat (b64encode (toy_sign 5 [0x61] content_padding content_hash_algo 0))"

definition example_env :: "(nat, nat) env" where
  "example_env =
    toy_env
      [([10], JObj [(str_of ''a'', JStr example_signature)]),
       ([11], JObj [(str_of ''a'', JStr [])]),
       ([12], JObj [(str_of ''a'', JStr (str_of ''AAAA''))])]
      [([1], example_ca), ([2], example_cert)]"

text \<open>A signed directory with the manifest text \<open>manifest\<close>, and a subdirectory
  \<open>sub\<close> that holds a file and neither manifest nor certificate.\<close>

definition example_dir :: "bytes \<Rightarrow> dir" where
  "example_dir manifest =
    Dir [(str_of ''a'', File [0x61]),
         (NVFLARE_SIG_FILE example_env, File manifest),
         (NVFLARE_SUBMITTER_CRT_FILE example_env, File [2])]
        [(str_of ''sub'', Dir [(str_of ''b'', File [0x62])] [])]"

text \<open>A tree that has not been signed: a file, and two subdirectories, the first
  with a subdirectory of its own.\<close>

definition example_tree :: dir where
  "example_tree =
    Dir [(str_of ''a'', File [0x61])]
        [(str_of ''x'', Dir [(str_of ''b'', File [0x62])] [(str_of ''y'', Dir [] [])]),
         (str_of ''z'', Dir [] [])]"

text \<open>The loop of \<open>sign_folders\<close> over a list of directories given beforehand (each as
  \<open>os.walk\<close> yields it): the entries of every directory afterwards, the state and the
  signal. The directories after a \<open>break\<close> or an exception are left as they are.\<close>

fun sign_loop ::
  "('sk, 'pk) env \<Rightarrow> 'sk \<Rightarrow> error + bytes \<Rightarrow> int \<Rightarrow> ((str \<times> entry) list \<times> str list) list
    \<Rightarrow> int \<times> nat \<Rightarrow> (str \<times> entry) list list \<times> (int \<times> nat) \<times> signal" where
  "sign_loop E signing_pri_key crt_file max_depth [] st = ([], st, Next)"
| "sign_loop E signing_pri_key crt_file max_depth (listing # rest) st =
    (case sign_dir E signing_pri_key crt_file max_depth (fst listing) (snd listing) st of
       (files', st', Next) \<Rightarrow>
         (case sign_loop E signing_pri_key crt_file max_depth rest st' of
            (out, st'', sg) \<Rightarrow> (files' # out, st'', sg))
     | (files', st', sg) \<Rightarrow> (files' # map fst rest, st', sg))"

section \<open>Properties of the codecs\<close>

lemma unat_byte_lt: "unat (b::byte) < 256"
  using unsigned_less[of b, where 'a=nat] by simp

lemma unat_of_nat_byte: "m < 256 \<Longrightarrow> unat (of_nat m :: byte) = m"
  by (simp add: unat_of_nat)

lemma b64_char_unat:
  assumes "n < 64"
  shows "unat (b64_char n) =
    (if n < 26 then 65 + n else if n < 52 then 71 + n else if n < 62 then n - 4
     else if n = 62 then 43 else 47)"
proof -
  have "b64_char n = of_nat (if n < 26 then 65 + n else if n < 52 then 71 + n
      else if n < 62 then n - 4 else if n = 62 then 43 else 47)"
    unfolding b64_char_def by (simp del: of_nat_add of_nat_diff)
  moreover have "(if n < 26 then 65 + n else if n < 52 then 71 + n
      else if n < 62 then n - 4 else if n = 62 then 43 else 47) < (256::nat)"
    using assms by auto
  ultimately show ?thesis by (simp only: unat_of_nat_byte)
qed

lemma b64_value_char: "n < 64 \<Longrightarrow> b64_value (b64_char n) = Some n"
  by (auto simp: b64_value_def b64_char_unat Let_def)

lemma b64_char_not_pad: "n < 64 \<Longrightarrow> b64_char n \<noteq> b64_pad"
proof
  assume n: "n < 64" and eq: "b64_char n = b64_pad"
  have "unat (b64_char n) = 61" using eq by (simp add: b64_pad_def)
  with n show False by (auto simp: b64_char_unat split: if_splits)
qed

lemma b64_char_ascii: "n < 64 \<Longrightarrow> unat (b64_char n) < 128"
  by (auto simp: b64_char_unat)

lemma a2b_step:
  "n < 64 \<Longrightarrow> a2b_base64 (b64_char n # rest) q l p out =
     (if q = 0 then a2b_base64 rest 1 n 0 out
      else if q = 1 then a2b_base64 rest 2 (n mod 16) 0 (out @ [of_nat (l * 4 + n div 16)])
      else if q = 2 then a2b_base64 rest 3 (n mod 4) 0 (out @ [of_nat (l * 16 + n div 4)])
      else a2b_base64 rest 0 0 0 (out @ [of_nat (l * 64 + n)]))"
  by (simp add: b64_value_char b64_char_not_pad)

lemma sextet_hi:
  fixes a :: byte
  shows "unat a div 4 < 64"
  using unat_byte_lt[of a] by simp

lemma sextet_mid1:
  fixes a b :: byte
  shows "unat a mod 4 * 16 + unat b div 16 < 64"
proof -
  have "unat b div 16 < 16" using unat_byte_lt[of b] by simp
  moreover have "unat a mod 4 < 4" by simp
  ultimately show ?thesis by linarith
qed

lemma sextet_mid2:
  fixes b c :: byte
  shows "unat b mod 16 * 4 + unat c div 64 < 64"
proof -
  have "unat c div 64 < 4" using unat_byte_lt[of c] by simp
  moreover have "unat b mod 16 < 16" by simp
  ultimately show ?thesis by linarith
qed

lemma sextet_lo:
  fixes a b c :: byte
  shows "unat c mod 64 < 64" "unat a mod 4 * 16 < 64" "unat b mod 16 * 4 < 64"
proof -
  show "unat c mod 64 < 64" by simp
  have "unat a mod 4 < 4" by simp
  then show "unat a mod 4 * 16 < 64" by linarith
  have "unat b mod 16 < 16" by simp
  then show "unat b mod 16 * 4 < 64" by linarith
qed

lemmas sextets = sextet_hi sextet_mid1 sextet_mid2 sextet_lo

lemma a2b_pad_end: "2 \<le> q \<Longrightarrow> 3 \<le> q + p \<Longrightarrow> a2b_base64 (b64_pad # rest) q l p out = Inr out"
  by simp

lemma a2b_pad_skip: "q = 2 \<Longrightarrow> p = 0 \<Longrightarrow>
    a2b_base64 (b64_pad # rest) q l p out = a2b_base64 rest q l 1 out"
  by simp

lemma of_nat_byte_eq: "(of_nat n = (a::byte)) = (n mod 256 = unat a)"
proof
  assume "of_nat n = a"
  then have "unat (of_nat n :: byte) = unat a" by simp
  then show "n mod 256 = unat a" by (simp add: unat_of_nat)
next
  assume "n mod 256 = unat a"
  then have "unat (of_nat n :: byte) = unat a" by (simp add: unat_of_nat)
  then show "of_nat n = a" by (simp only: word_unat_eq_iff)
qed

lemma a2b_encode: "a2b_base64 (b64encode xs) 0 l 0 out = Inr (out @ xs)"
proof (induction xs arbitrary: l out rule: b64encode.induct)
  case 1
  then show ?case by simp
next
  case (2 a)
  show ?case
    using unat_byte_lt[of a]
    by (simp add: a2b_step sextets a2b_pad_end a2b_pad_skip of_nat_byte_eq
          del: a2b_base64.simps of_nat_add of_nat_mult)
next
  case (3 a b)
  show ?case
    using unat_byte_lt[of a] unat_byte_lt[of b]
    by (simp add: a2b_step sextets a2b_pad_end of_nat_byte_eq
          del: a2b_base64.simps of_nat_add of_nat_mult)
next
  case (4 a b c rest)
  show ?case
    using unat_byte_lt[of a] unat_byte_lt[of b] unat_byte_lt[of c]
    by (simp add: a2b_step sextets 4 of_nat_byte_eq
          del: a2b_base64.simps of_nat_add of_nat_mult)
qed

lemma b64decode_b64encode: "b64decode (b64encode xs) = Inr xs"
  by (simp add: b64decode_def a2b_encode)

lemma b64encode_ascii: "b \<in> set (b64encode xs) \<Longrightarrow> unat b < 128"
  by (induction xs rule: b64encode.induct)
     (auto simp: b64_char_ascii sextets b64_pad_def)

lemma utf8_decode_ascii: "\<forall>b\<in>set bs. unat b < 128 \<Longrightarrow> utf8_decode bs = Inr (map unat bs)"
  by (induction bs) (auto simp: decoded_def Let_def)

lemma utf8_encode_ascii: "\<forall>c\<in>set cs. c < 128 \<Longrightarrow> utf8_encode cs = Inr (map of_nat cs)"
  by (induction cs) (auto simp: utf8_char_def)

lemma utf8_encode_unat:
  assumes "\<forall>b\<in>set bs. unat b < 128"
  shows "utf8_encode (map unat bs) = Inr bs"
proof -
  have "utf8_encode (map unat bs) = Inr (map of_nat (map unat bs))"
    using assms by (intro utf8_encode_ascii) auto
  then show ?thesis by (simp add: comp_def)
qed


section \<open>Properties of signing and verifying content\<close>

lemma utf8_char_encodable: "c < 0xD800 \<or> (0xDFFF < c \<and> c < 0x110000) \<Longrightarrow> \<exists>b. utf8_char c = Inr b"
  by (auto simp: utf8_char_def)

lemma utf8_encode_encodable: "encodable s \<Longrightarrow> \<exists>b. utf8_encode s = Inr b"
proof (induction s)
  case Nil
  then show ?case by simp
next
  case (Cons c cs)
  then obtain b where b: "utf8_char c = Inr b"
    using utf8_char_encodable[of c] by (auto simp: encodable_def)
  from Cons obtain rest where "utf8_encode cs = Inr rest" by (auto simp: encodable_def)
  with b show ?case by simp
qed

lemma utf8_decode_b64encode: "utf8_decode (b64encode raw) = Inr (map unat (b64encode raw))"
  by (rule utf8_decode_ascii) (simp add: b64encode_ascii)

lemma signature_bytes_b64: "signature_bytes (Str (map unat (b64encode raw))) = Inr (Bytes raw)"
  by (simp add: signature_bytes_def utf8_encode_unat b64encode_ascii b64decode_b64encode)

lemma sign_content_Bytes:
  "sign_content E (Bytes data) key return_str entropy =
    Inr (if return_str
         then Str (map unat (b64encode (rsa_sign E key data content_padding content_hash_algo entropy)))
         else Bytes (rsa_sign E key data content_padding content_hash_algo entropy))"
  by (simp add: sign_content_def to_bytes_def utf8_decode_b64encode)

lemma sign_content_Str:
  "utf8_encode s = Inr data \<Longrightarrow> sign_content E (Str s) key return_str entropy =
    Inr (if return_str
         then Str (map unat (b64encode (rsa_sign E key data content_padding content_hash_algo entropy)))
         else Bytes (rsa_sign E key data content_padding content_hash_algo entropy))"
  by (simp add: sign_content_def to_bytes_def utf8_decode_b64encode)

lemma verify_content_Bytes:
  "signature_bytes sg = Inr (Bytes raw) \<Longrightarrow> verify_content E (Bytes data) sg pub =
     (if rsa_verify E pub raw data content_padding content_hash_algo then Inr ()
      else Inl InvalidSignature)"
  by (simp add: verify_content_def to_bytes_def)

lemma verify_content_Str:
  "utf8_encode s = Inr data \<Longrightarrow> signature_bytes sg = Inr (Bytes raw) \<Longrightarrow>
   verify_content E (Str s) sg pub =
     (if rsa_verify E pub raw data content_padding content_hash_algo then Inr ()
      else Inl InvalidSignature)"
  by (simp add: verify_content_def to_bytes_def)

lemma signature_bytes_Bytes: "signature_bytes (Bytes raw) = Inr (Bytes raw)"
  by (simp add: signature_bytes_def)

lemma toy_key_pair: "key_pair (toy_env ms cs) k k"
  by (simp add: key_pair_def toy_env_def toy_sign_def toy_verify_def)


section \<open>Properties of the verification loop\<close>

lemma verify_files_ok_iff:
  "verify_files E sigs pk files folders names = Inr () \<longleftrightarrow>
     (\<forall>file\<in>set names. file = NVFLARE_SIG_FILE E \<or> file = NVFLARE_SUBMITTER_CRT_FILE E
        \<or> verify_file E sigs pk files folders file = Inr ())"
  by (induction names) (auto split: sum.splits)

lemma verify_folders_ok_iff:
  "verify_folders E sigs pk folders = Inr () \<longleftrightarrow>
     (\<forall>folder\<in>set folders. verify_folder E sigs pk folder = Inr ())"
  by (induction folders) (auto split: sum.splits)

lemma verify_loop_ok_iff:
  "verify_loop E pk listings = Inr () \<longleftrightarrow> (\<forall>l\<in>set listings. verify_dir E pk l = Inr ())"
  by (induction listings) (auto split: sum.splits)

lemma verify_loop_append:
  "verify_loop E pk (xs @ ys) =
     (case verify_loop E pk xs of Inl e \<Rightarrow> Inl e | Inr u \<Rightarrow> verify_loop E pk ys)"
  by (induction xs) (auto split: sum.splits)

lemma verify_loop_stops:
  "verify_dir E pk l = Inl e \<Longrightarrow> verify_loop E pk (xs @ l # ys) = verify_loop E pk (xs @ [l])"
  by (simp add: verify_loop_append split: sum.splits)

lemma verify_folder_signature_returns:
  "\<exists>b. verify_folder_signature E src ca = Inr b"
  by (cases "verify_folder_signature_try E src ca") (auto simp: verify_folder_signature_def)

lemma verify_loop_result: "verify_loop E pk ls = Inr u \<longleftrightarrow> verify_loop E pk ls = Inr ()"
  by simp

lemma verify_folder_signature_True_iff:
  "verify_folder_signature E src ca_file = Inr True \<longleftrightarrow>
     (\<exists>ca. load_crt E ca_file = Inr ca
        \<and> (\<forall>l\<in>set (os_walk src). verify_dir E (cert_public_key ca) l = Inr ()))"
proof (cases "load_crt E ca_file")
  case (Inl e)
  then show ?thesis
    by (simp add: verify_folder_signature_def verify_folder_signature_try_def)
next
  case (Inr ca)
  show ?thesis
  proof (cases "verify_loop E (cert_public_key ca) (os_walk src)")
    case (Inl e)
    then have "\<not> (\<forall>l\<in>set (os_walk src). verify_dir E (cert_public_key ca) l = Inr ())"
      using verify_loop_ok_iff[of E "cert_public_key ca" "os_walk src"] by simp
    with Inl Inr show ?thesis
      by (simp add: verify_folder_signature_def verify_folder_signature_try_def)
  next
    case (Inr u)
    then have "\<forall>l\<in>set (os_walk src). verify_dir E (cert_public_key ca) l = Inr ()"
      using verify_loop_ok_iff[of E "cert_public_key ca" "os_walk src"] by simp
    with Inr \<open>load_crt E ca_file = Inr ca\<close> show ?thesis
      by (simp add: verify_folder_signature_def verify_folder_signature_try_def)
  qed
qed

lemma verify_folder_signature_False_iff:
  "verify_folder_signature E src ca_file = Inr False \<longleftrightarrow>
     \<not> (\<exists>ca. load_crt E ca_file = Inr ca
        \<and> (\<forall>l\<in>set (os_walk src). verify_dir E (cert_public_key ca) l = Inr ()))"
  using verify_folder_signature_True_iff[of E src ca_file]
    verify_folder_signature_returns[of E src ca_file] by auto

lemma open_read_delete:
  "x \<noteq> name \<Longrightarrow> open_read (AList.delete name files) folders x = open_read files folders x"
  by (simp add: open_read_def delete_conv)

lemma open_read_deleted:
  "open_read (AList.delete name files) folders name \<noteq> Inr data"
  by (simp add: open_read_def delete_conv)

lemma verify_file_delete:
  "x \<noteq> name \<Longrightarrow> verify_file E sigs pk (AList.delete name files) folders x
     = verify_file E sigs pk files folders x"
  by (simp add: verify_file_def open_read_delete cong: sum.case_cong if_cong)

lemma load_signatures_delete:
  "load_signatures E (AList.delete name files) folders =
     (if name = NVFLARE_SIG_FILE E \<or> name = NVFLARE_SUBMITTER_CRT_FILE E then None
      else load_signatures E files folders)"
proof (cases "name = NVFLARE_SIG_FILE E")
  case True
  then show ?thesis
    using open_read_deleted[of name files folders]
    by (cases "open_read (AList.delete name files) folders name")
       (simp_all add: load_signatures_def)
next
  case False
  note sig = this
  show ?thesis
  proof (cases "name = NVFLARE_SUBMITTER_CRT_FILE E")
    case True
    have "load_crt E (open_read (AList.delete name files) folders name) = Inl e
        \<or> True" for e by simp
    obtain e where "open_read (AList.delete name files) folders name = Inl e"
      using open_read_deleted[of name files folders]
      by (cases "open_read (AList.delete name files) folders name") auto
    then show ?thesis using True
      by (simp add: load_signatures_def load_crt_def split: sum.splits option.splits)
  next
    case False
    with sig show ?thesis
      by (simp add: load_signatures_def open_read_delete[OF not_sym] cong: sum.case_cong option.case_cong)
  qed
qed

lemma verify_dir_delete:
  assumes "verify_dir E pk (files, folders) = Inr ()"
  shows "verify_dir E pk (AList.delete name files, folders) = Inr ()"
proof (cases "name = NVFLARE_SIG_FILE E \<or> name = NVFLARE_SUBMITTER_CRT_FILE E")
  case True
  then show ?thesis by (simp add: verify_dir_def load_signatures_delete)
next
  case False
  show ?thesis
  proof (cases "load_signatures E files folders")
    case None
    with False show ?thesis by (simp add: verify_dir_def load_signatures_delete)
  next
    case (Some p)
    obtain sigs cert where p: "p = (sigs, cert)" by (cases p)
    from assms Some p have ok: "verify_checks E pk sigs cert files folders = Inr ()"
      by (simp add: verify_dir_def)
    have "verify_checks E pk sigs cert (AList.delete name files) folders = Inr ()"
      using ok
    proof -
      from ok have c: "verify_cert E cert pk = Inr ()"
        and f: "verify_files E sigs (cert_public_key cert) files folders (map fst files) = Inr ()"
        and d: "verify_folders E sigs (cert_public_key cert) folders = Inr ()"
        by (auto simp: verify_checks_def split: sum.splits)
      have "verify_files E sigs (cert_public_key cert) (AList.delete name files) folders
              (map fst (AList.delete name files)) = Inr ()"
        unfolding verify_files_ok_iff
      proof
        fix f' assume "f' \<in> set (map fst (AList.delete name files))"
        then have ne: "f' \<noteq> name" and "f' \<in> set (map fst files)"
          by (auto simp: AList.delete_eq)
        with f show "f' = NVFLARE_SIG_FILE E \<or> f' = NVFLARE_SUBMITTER_CRT_FILE E \<or>
            verify_file E sigs (cert_public_key cert) (AList.delete name files) folders f' = Inr ()"
          unfolding verify_files_ok_iff by (auto simp: verify_file_delete)
      qed
      with c d show ?thesis by (simp add: verify_checks_def)
    qed
    with False Some p show ?thesis by (simp add: verify_dir_def load_signatures_delete)
  qed
qed


lemma os_walk_remove_file:
  "l \<in> set (os_walk (remove_file path name t)) \<Longrightarrow>
     l \<in> set (os_walk t) \<or> (\<exists>files. (files, snd l) \<in> set (os_walk t) \<and> fst l = AList.delete name files)"
proof (induction path name t arbitrary: l rule: remove_file.induct)
  case (1 name files subdirs)
  then show ?case by (cases l) auto
next
  case (2 p path name files subdirs)
  let ?g = "\<lambda>(n, d). if n = p then (n, remove_file path name d) else (n, d)"
  have names: "map fst (map ?g subdirs) = map fst subdirs"
    by (induction subdirs) auto
  have "os_walk (remove_file (p # path) name (Dir files subdirs)) =
      (files, map fst subdirs) # concat (map (\<lambda>(n, d). os_walk d) (map ?g subdirs))"
    using names by (simp del: map_map)
  with "2.prems" have "l = (files, map fst subdirs)
      \<or> (\<exists>x\<in>set subdirs. l \<in> set (case ?g x of (n, d) \<Rightarrow> os_walk d))"
    by (auto simp del: map_map)
  then consider "l = (files, map fst subdirs)"
    | n d where "(n, d) \<in> set subdirs" "n = p" "l \<in> set (os_walk (remove_file path name d))"
    | n d where "(n, d) \<in> set subdirs" "n \<noteq> p" "l \<in> set (os_walk d)"
    by (auto split: if_splits)
  then show ?case
  proof cases
    case 1
    then show ?thesis by simp
  next
    case 2
    from "2.IH"[OF 2(1) refl 2(2) 2(3)]
    have "l \<in> set (os_walk d) \<or>
       (\<exists>files. (files, snd l) \<in> set (os_walk d) \<and> fst l = AList.delete name files)"
      by simp
    with 2(1) show ?thesis by fastforce
  next
    case 3
    then show ?thesis by fastforce
  qed
qed


lemma verify_dir_fails:
  assumes "load_crt E root_ca_file = Inr ca"
    and "l \<in> set (os_walk src_folder)"
    and "verify_dir E (cert_public_key ca) l \<noteq> Inr ()"
  shows "verify_folder_signature E src_folder root_ca_file = Inr False"
  unfolding verify_folder_signature_False_iff using assms by auto

lemma verify_checks_fails_cert:
  "verify_cert E cert pk \<noteq> Inr () \<Longrightarrow> verify_checks E pk sigs cert files folders \<noteq> Inr ()"
  by (auto simp: verify_checks_def split: sum.splits)

lemma verify_checks_fails_file:
  assumes "f \<in> set (map fst files)" "f \<noteq> NVFLARE_SIG_FILE E" "f \<noteq> NVFLARE_SUBMITTER_CRT_FILE E"
    and "verify_file E sigs (cert_public_key cert) files folders f \<noteq> Inr ()"
  shows "verify_checks E pk sigs cert files folders \<noteq> Inr ()"
proof
  assume "verify_checks E pk sigs cert files folders = Inr ()"
  then have "verify_files E sigs (cert_public_key cert) files folders (map fst files) = Inr ()"
    by (auto simp: verify_checks_def split: sum.splits)
  with assms show False unfolding verify_files_ok_iff by blast
qed

lemma verify_checks_fails_folder:
  assumes "d \<in> set folders"
    and "verify_folder E sigs (cert_public_key cert) d \<noteq> Inr ()"
  shows "verify_checks E pk sigs cert files folders \<noteq> Inr ()"
proof
  assume "verify_checks E pk sigs cert files folders = Inr ()"
  then have "verify_folders E sigs (cert_public_key cert) folders = Inr ()"
    by (auto simp: verify_checks_def split: sum.splits)
  with assms show False unfolding verify_folders_ok_iff by blast
qed

lemma example_names:
  "NVFLARE_SIG_FILE example_env = str_of ''.__nvfl_sig.json''"
  "NVFLARE_SUBMITTER_CRT_FILE example_env = str_of ''.__nvfl_submitter.crt''"
  by (simp_all add: example_env_def toy_env_def)


lemma load_signatures_None:
  assumes "(\<forall>text. open_read files folders (NVFLARE_SIG_FILE E) = Inr text \<longrightarrow> json_load E text = None)
     \<or> (\<forall>data. open_read files folders (NVFLARE_SUBMITTER_CRT_FILE E) = Inr data
           \<longrightarrow> load_pem_x509_certificate E data = None)"
  shows "load_signatures E files folders = None"
  using assms
  by (auto simp: load_signatures_def load_crt_def load_crt_bytes_def split: sum.splits option.splits)

lemma verify_file_absent:
  "map_of items name = None \<Longrightarrow> verify_file E (JObj items) pk files folders name = Inr ()"
  by (simp add: verify_file_def signatures_get_def truthy_def)

lemma verify_folder_absent:
  "map_of items name = None \<Longrightarrow> verify_folder E (JObj items) pk name = Inr ()"
  by (simp add: verify_folder_def signatures_get_def truthy_def)

lemma signatures_get_restrict:
  "x \<in> keep \<Longrightarrow> signatures_get (restrict_keys keep sigs) x = signatures_get sigs x"
  by (cases sigs) (simp_all add: signatures_get_def restrict_keys_def restr_conv)

lemma verify_file_restrict:
  "x \<in> keep \<Longrightarrow> verify_file E (restrict_keys keep sigs) pk files folders x
      = verify_file E sigs pk files folders x"
  by (simp add: verify_file_def signatures_get_restrict)

lemma verify_folder_restrict:
  "x \<in> keep \<Longrightarrow> verify_folder E (restrict_keys keep sigs) pk x = verify_folder E sigs pk x"
  by (simp add: verify_folder_def signatures_get_restrict)

lemma verify_files_restrict:
  "set names - {NVFLARE_SIG_FILE E, NVFLARE_SUBMITTER_CRT_FILE E} \<subseteq> keep \<Longrightarrow>
     verify_files E (restrict_keys keep sigs) pk files folders names
      = verify_files E sigs pk files folders names"
  by (induction names) (auto simp: verify_file_restrict split: sum.splits)

lemma verify_folders_restrict:
  "set names \<subseteq> keep \<Longrightarrow>
     verify_folders E (restrict_keys keep sigs) pk names = verify_folders E sigs pk names"
  by (induction names) (auto simp: verify_folder_restrict split: sum.splits)

lemma verify_checks_restrict:
  assumes "set (map fst files) - {NVFLARE_SIG_FILE E, NVFLARE_SUBMITTER_CRT_FILE E} \<subseteq> keep"
    and "set folders \<subseteq> keep"
  shows "verify_checks E pk (restrict_keys keep sigs) cert files folders
      = verify_checks E pk sigs cert files folders"
  using assms
  by (simp add: verify_checks_def verify_files_restrict verify_folders_restrict split: sum.splits)


section \<open>Properties of the signing loops\<close>

lemma sign_files_keys:
  "sign_files E k files folders names acc = Inr acc' \<Longrightarrow>
     fst ` set (fst acc') = fst ` set (fst acc)
        \<union> (set names - {NVFLARE_SIG_FILE E, NVFLARE_SUBMITTER_CRT_FILE E})"
proof (induction names arbitrary: acc)
  case Nil
  then show ?case by simp
next
  case (Cons f names)
  show ?case
  proof (cases "f = NVFLARE_SIG_FILE E \<or> f = NVFLARE_SUBMITTER_CRT_FILE E")
    case True
    with Cons show ?thesis by auto
  next
    case False
    with Cons.prems obtain content s where
      r: "open_read files folders f = Inr content"
      and s: "sign_content E (Bytes content) k True (urandom E (snd acc)) = Inr s"
      and rest: "sign_files E k files folders names (AList.update f s (fst acc), Suc (snd acc)) = Inr acc'"
      by (auto split: sum.splits)
    from Cons.IH[OF rest] False show ?thesis by (auto simp: dom_update)
  qed
qed

lemma sign_files_other:
  "sign_files E k files folders names acc = Inr acc' \<Longrightarrow>
   x \<notin> set names - {NVFLARE_SIG_FILE E, NVFLARE_SUBMITTER_CRT_FILE E} \<Longrightarrow>
   map_of (fst acc') x = map_of (fst acc) x"
proof (induction names arbitrary: acc)
  case Nil
  then show ?case by simp
next
  case (Cons f names)
  show ?case
  proof (cases "f = NVFLARE_SIG_FILE E \<or> f = NVFLARE_SUBMITTER_CRT_FILE E")
    case True
    with Cons show ?thesis by auto
  next
    case False
    with Cons.prems obtain content s where
      rest: "sign_files E k files folders names (AList.update f s (fst acc), Suc (snd acc)) = Inr acc'"
      by (auto split: sum.splits)
    from Cons.prems(2) False have "x \<noteq> f" "x \<notin> set names - {NVFLARE_SIG_FILE E, NVFLARE_SUBMITTER_CRT_FILE E}"
      by auto
    with Cons.IH[OF rest] show ?thesis by (simp add: update_conv')
  qed
qed

lemma sign_files_recorded:
  "sign_files E k files folders names acc = Inr acc' \<Longrightarrow>
   f \<in> set names \<Longrightarrow> f \<noteq> NVFLARE_SIG_FILE E \<Longrightarrow> f \<noteq> NVFLARE_SUBMITTER_CRT_FILE E \<Longrightarrow>
   \<exists>i data s. open_read files folders f = Inr data
      \<and> sign_content E (Bytes data) k True (urandom E i) = Inr s
      \<and> map_of (fst acc') f = Some s"
proof (induction names arbitrary: acc)
  case Nil
  then show ?case by simp
next
  case (Cons g names)
  show ?case
  proof (cases "g = NVFLARE_SIG_FILE E \<or> g = NVFLARE_SUBMITTER_CRT_FILE E")
    case True
    with Cons.prems have "sign_files E k files folders names acc = Inr acc'" "f \<in> set names"
      by auto
    from Cons.IH[OF this Cons.prems(3,4)] show ?thesis .
  next
    case False
    with Cons.prems(1) obtain content s where
      r: "open_read files folders g = Inr content"
      and s: "sign_content E (Bytes content) k True (urandom E (snd acc)) = Inr s"
      and rest: "sign_files E k files folders names (AList.update g s (fst acc), Suc (snd acc)) = Inr acc'"
      by (auto split: sum.splits)
    show ?thesis
    proof (cases "f \<in> set names")
      case True
      from Cons.IH[OF rest True Cons.prems(3,4)] show ?thesis .
    next
      case False
      with Cons.prems(2) have fg: "f = g" by simp
      from sign_files_other[OF rest, of f] False
      have "map_of (fst acc') f = Some s" by (simp add: fg update_conv')
      with r s fg show ?thesis by blast
    qed
  qed
qed

lemma sign_names_keys:
  "sign_names E k names acc = Inr acc' \<Longrightarrow>
     fst ` set (fst acc') = fst ` set (fst acc) \<union> set names"
proof (induction names arbitrary: acc)
  case Nil
  then show ?case by simp
next
  case (Cons f names)
  from Cons.prems obtain s where
    rest: "sign_names E k names (AList.update f s (fst acc), Suc (snd acc)) = Inr acc'"
    by (auto split: sum.splits)
  from Cons.IH[OF rest] show ?case by (auto simp: dom_update)
qed

lemma sign_names_other:
  "sign_names E k names acc = Inr acc' \<Longrightarrow> x \<notin> set names \<Longrightarrow>
   map_of (fst acc') x = map_of (fst acc) x"
proof (induction names arbitrary: acc)
  case Nil
  then show ?case by simp
next
  case (Cons f names)
  from Cons.prems obtain s where
    rest: "sign_names E k names (AList.update f s (fst acc), Suc (snd acc)) = Inr acc'"
    by (auto split: sum.splits)
  from Cons.prems(2) have "x \<noteq> f" "x \<notin> set names" by auto
  with Cons.IH[OF rest] show ?case by (simp add: update_conv')
qed

lemma sign_names_recorded:
  "sign_names E k names acc = Inr acc' \<Longrightarrow> f \<in> set names \<Longrightarrow>
   \<exists>i s. sign_content E (Str f) k True (urandom E i) = Inr s \<and> map_of (fst acc') f = Some s"
proof (induction names arbitrary: acc)
  case Nil
  then show ?case by simp
next
  case (Cons g names)
  from Cons.prems(1) obtain s where
    s: "sign_content E (Str g) k True (urandom E (snd acc)) = Inr s"
    and rest: "sign_names E k names (AList.update g s (fst acc), Suc (snd acc)) = Inr acc'"
    by (auto split: sum.splits)
  show ?case
  proof (cases "f \<in> set names")
    case True
    from Cons.IH[OF rest True] show ?thesis .
  next
    case False
    with Cons.prems(2) have fg: "f = g" by simp
    from sign_names_other[OF rest, of f] False
    have "map_of (fst acc') f = Some s" by (simp add: fg update_conv')
    with s fg show ?thesis by blast
  qed
qed

lemma sign_files_total:
  "\<forall>f\<in>set names. f = NVFLARE_SIG_FILE E \<or> f = NVFLARE_SUBMITTER_CRT_FILE E
      \<or> (\<exists>data. open_read files folders f = Inr data) \<Longrightarrow>
   \<exists>acc'. sign_files E k files folders names acc = Inr acc'"
proof (induction names arbitrary: acc)
  case Nil
  then show ?case by simp
next
  case (Cons f names)
  then show ?case by (auto simp: sign_content_Bytes)
qed

lemma sign_names_total:
  "\<forall>f\<in>set names. encodable f \<Longrightarrow> \<exists>acc'. sign_names E k names acc = Inr acc'"
proof (induction names arbitrary: acc)
  case Nil
  then show ?case by simp
next
  case (Cons f names)
  from Cons.prems obtain data where d: "utf8_encode f = Inr data"
    using utf8_encode_encodable[of f] by auto
  from Cons show ?case by (simp add: sign_content_Str[OF d])
qed


lemma open_read_entry:
  assumes "distinct (map fst files @ folders)" "(f, e) \<in> set files"
  shows "open_read files folders f = (case e of File data \<Rightarrow> Inr data | Socket \<Rightarrow> Inl OSError)"
proof -
  from assms have "f \<notin> set folders" by force
  moreover from assms have "map_of files f = Some e" by simp
  ultimately show ?thesis by (simp add: open_read_def split: entry.splits)
qed

lemma sign_entries_recorded:
  assumes "sign_entries E key files folders calls = Inr (signatures, calls')"
    and "distinct (map fst files @ folders)"
  shows "(\<forall>folder\<in>set folders. \<exists>i s. sign_content E (Str folder) key True (urandom E i) = Inr s
            \<and> map_of signatures folder = Some s)
       \<and> (\<forall>(f, e)\<in>set files. f \<noteq> NVFLARE_SIG_FILE E \<and> f \<noteq> NVFLARE_SUBMITTER_CRT_FILE E \<longrightarrow>
            (\<exists>i data s. e = File data \<and> sign_content E (Bytes data) key True (urandom E i) = Inr s
               \<and> map_of signatures f = Some s))"
proof -
  from assms(1) obtain acc where
    1: "sign_files E key files folders (map fst files) ([], calls) = Inr acc"
    and 2: "sign_names E key folders acc = Inr (signatures, calls')"
    by (auto simp: sign_entries_def split: sum.splits)
  have a: "\<exists>i s. sign_content E (Str folder) key True (urandom E i) = Inr s
            \<and> map_of signatures folder = Some s" if "folder \<in> set folders" for folder
    using sign_names_recorded[OF 2 that] by simp
  have b: "\<exists>i data s. e = File data \<and> sign_content E (Bytes data) key True (urandom E i) = Inr s
               \<and> map_of signatures f = Some s"
    if "(f, e) \<in> set files" "f \<noteq> NVFLARE_SIG_FILE E" "f \<noteq> NVFLARE_SUBMITTER_CRT_FILE E" for f e
  proof -
    from that(1) have "f \<in> set (map fst files)" by force
    from sign_files_recorded[OF 1 this that(2,3)] obtain i data s where
      r: "open_read files folders f = Inr data"
      and s: "sign_content E (Bytes data) key True (urandom E i) = Inr s"
      and m: "map_of (fst acc) f = Some s" by blast
    from r open_read_entry[OF assms(2) that(1)] have e: "e = File data"
      by (cases e) auto
    from assms(2) that(1) have "f \<notin> set folders" by force
    from sign_names_other[OF 2 this] m have "map_of signatures f = Some s" by simp
    with e s show ?thesis by blast
  qed
  from a b show ?thesis by blast
qed

lemma sign_entries_keys:
  assumes "sign_entries E key files folders calls = Inr (signatures, calls')"
  shows "fst ` set signatures =
     (fst ` set files - {NVFLARE_SIG_FILE E, NVFLARE_SUBMITTER_CRT_FILE E}) \<union> set folders"
proof -
  from assms obtain acc where
    1: "sign_files E key files folders (map fst files) ([], calls) = Inr acc"
    and 2: "sign_names E key folders acc = Inr (signatures, calls')"
    by (auto simp: sign_entries_def split: sum.splits)
  from sign_files_keys[OF 1] sign_names_keys[OF 2] show ?thesis by simp
qed

lemma sign_entries_total:
  assumes "\<forall>f\<in>set (map fst files). f = NVFLARE_SIG_FILE E \<or> f = NVFLARE_SUBMITTER_CRT_FILE E
      \<or> (\<exists>data. open_read files folders f = Inr data)"
    and "\<forall>f\<in>set folders. encodable f"
  shows "\<exists>signatures calls'. sign_entries E key files folders calls = Inr (signatures, calls')"
proof -
  from sign_files_total[OF assms(1)] obtain acc where
    "sign_files E key files folders (map fst files) ([], calls) = Inr acc" by blast
  moreover from sign_names_total[OF assms(2), where E=E and k=key and acc=acc] obtain acc' where
    "sign_names E key folders acc = Inr acc'" by blast
  ultimately show ?thesis by (cases acc') (simp add: sign_entries_def)
qed

lemma sign_dir_depth: "fst (fst (snd (sign_dir E key crt m files folders st))) = fst st + 1"
  by (simp add: sign_dir_def Let_def split: sum.splits prod.splits)

lemma sign_dir_cases:
  obtains (raise) e files' calls' where
      "sign_dir E key crt m files folders st = (files', (fst st + 1, calls'), Raise e)"
  | (signed) signatures calls' data where
      "sign_entries E key files folders (snd st) = Inr (signatures, calls')"
      "crt = Inr data"
      "NVFLARE_SIG_FILE E \<notin> set folders" "NVFLARE_SUBMITTER_CRT_FILE E \<notin> set folders"
      "sign_dir E key crt m files folders st =
         (AList.update (NVFLARE_SUBMITTER_CRT_FILE E) (File data)
            (AList.update (NVFLARE_SIG_FILE E) (File (json_dump E signatures)) files),
          (fst st + 1, calls'), if fst st + 1 \<ge> m then Break else Next)"
proof (cases "sign_entries E key files folders (snd st)")
  case (Inl e)
  then show ?thesis by (intro raise[of files "snd st" e]) (simp add: sign_dir_def)
next
  case (Inr p)
  obtain signatures calls' where p: "p = (signatures, calls')" by (cases p)
  show ?thesis
  proof (cases "write_file files folders (NVFLARE_SIG_FILE E) (json_dump E signatures)")
    case (Inl e)
    with Inr p show ?thesis by (intro raise[of files calls' e]) (simp add: sign_dir_def)
  next
    case w: (Inr files1)
    then have f1: "files1 = AList.update (NVFLARE_SIG_FILE E) (File (json_dump E signatures)) files"
      and n1: "NVFLARE_SIG_FILE E \<notin> set folders"
      by (auto simp: write_file_def split: if_splits option.splits entry.splits)
    show ?thesis
    proof (cases "copyfile crt files1 folders (NVFLARE_SUBMITTER_CRT_FILE E)")
      case (Inl e)
      with Inr p w show ?thesis by (intro raise[of files1 calls' e]) (simp add: sign_dir_def)
    next
      case c: (Inr files2)
      then obtain data where d: "crt = Inr data"
        and f2: "files2 = AList.update (NVFLARE_SUBMITTER_CRT_FILE E) (File data) files1"
        and n2: "NVFLARE_SUBMITTER_CRT_FILE E \<notin> set folders"
        by (auto simp: copyfile_def write_file_def split: sum.splits if_splits option.splits entry.splits)
      show ?thesis
        using Inr p w c by (intro signed[OF _ d n1 n2, of signatures calls']) (simp_all add: sign_dir_def f1 f2)
    qed
  qed
qed

lemma sign_dir_signed:
  assumes "sign_dir E key crt m files folders st = (files', st', sg)" "\<forall>e. sg \<noteq> Raise e"
  shows "NVFLARE_SIG_FILE E \<in> fst ` set files' \<and> NVFLARE_SUBMITTER_CRT_FILE E \<in> fst ` set files'
    \<and> (sg = Next \<longrightarrow> fst st + 1 < m) \<and> (sg = Break \<longrightarrow> fst st + 1 \<ge> m) \<and> fst st' = fst st + 1"
proof (cases rule: sign_dir_cases[of E key crt m files folders st])
  case (raise e files1 calls1)
  with assms show ?thesis by auto
next
  case (signed signatures calls' data)
  with assms show ?thesis by (auto simp: dom_update split: if_splits)
qed


lemma sign_loop_append:
  "sign_loop E k crt m (xs @ ys) st =
    (case sign_loop E k crt m xs st of
       (out, st', Next) \<Rightarrow>
         (case sign_loop E k crt m ys st' of (out2, st'', sg) \<Rightarrow> (out @ out2, st'', sg))
     | (out, st', sg) \<Rightarrow> (out @ map fst ys, st', sg))"
proof (induction xs arbitrary: st)
  case Nil
  then show ?case by (simp split: prod.splits)
next
  case (Cons l xs)
  show ?case
    by (simp add: Cons split: prod.splits signal.splits)
qed

lemma sign_walk_loop:
  "sign_loop E k crt m (os_walk d) st =
     (case sign_walk E k crt m d st of (d', st', sg) \<Rightarrow> (map fst (os_walk d'), st', sg))
   \<and> map snd (os_walk (fst (sign_walk E k crt m d st))) = map snd (os_walk d)"
  and sign_subdirs_loop:
  "sign_loop E k crt m (concat (map (\<lambda>(n, d). os_walk d) ds)) st =
     (case sign_subdirs E k crt m ds st of
        (ds', st', sg) \<Rightarrow> (map fst (concat (map (\<lambda>(n, d). os_walk d) ds')), st', sg))
   \<and> map snd (concat (map (\<lambda>(n, d). os_walk d) (fst (sign_subdirs E k crt m ds st))))
       = map snd (concat (map (\<lambda>(n, d). os_walk d) ds))
   \<and> map fst (fst (sign_subdirs E k crt m ds st)) = map fst ds"
proof (induction E k crt m d st and E k crt m ds st rule: sign_walk_sign_subdirs.induct)
  case (1 E k crt m files subdirs st)
  obtain files' st' sg where b: "sign_dir E k crt m files (map fst subdirs) st = (files', st', sg)"
    by (cases "sign_dir E k crt m files (map fst subdirs) st") auto
  show ?case
  proof (cases sg)
    case Next
    from "1.IH"[OF b[symmetric] refl Next] b Next show ?thesis
      by (auto split: prod.splits)
  next
    case Break
    with b show ?thesis by (simp add: comp_def case_prod_unfold)
  next
    case (Raise e)
    with b show ?thesis by (simp add: comp_def case_prod_unfold)
  qed
next
  case (2 E k crt m st)
  then show ?case by simp
next
  case (3 E k crt m name d rest st)
  obtain d' st' sg where w: "sign_walk E k crt m d st = (d', st', sg)"
    by (cases "sign_walk E k crt m d st") auto
  show ?case
  proof (cases sg)
    case Next
    from "3.IH"(1) w Next "3.IH"(2)[OF w[symmetric] refl Next] show ?thesis
      by (auto simp: sign_loop_append split: prod.splits)
  next
    case Break
    with "3.IH"(1) w show ?thesis
      by (auto simp: sign_loop_append split: prod.splits)
  next
    case (Raise e)
    with "3.IH"(1) w show ?thesis
      by (auto simp: sign_loop_append split: prod.splits)
  qed
qed


lemma sign_loop_visited:
  assumes "sign_loop E k crt m ls st = (out, st', sg)"
  shows "\<exists>v\<le>length ls. fst st' = fst st + int v
      \<and> (ls \<noteq> [] \<longrightarrow> 1 \<le> v)
      \<and> length out = length ls
      \<and> drop v out = map fst (drop v ls)
      \<and> (2 \<le> v \<longrightarrow> fst st + int v \<le> m)
      \<and> ((\<forall>e. sg \<noteq> Raise e) \<longrightarrow>
            (v = length ls \<or> m \<le> fst st')
            \<and> (\<forall>i<v. NVFLARE_SIG_FILE E \<in> fst ` set (out ! i)
                      \<and> NVFLARE_SUBMITTER_CRT_FILE E \<in> fst ` set (out ! i)))"
  using assms
proof (induction ls arbitrary: st out st' sg)
  case Nil
  then show ?case by simp
next
  case (Cons l rest)
  obtain files1 st1 sg1 where b: "sign_dir E k crt m (fst l) (snd l) st = (files1, st1, sg1)"
    by (cases "sign_dir E k crt m (fst l) (snd l) st") auto
  have d1: "fst st1 = fst st + 1"
    using sign_dir_depth[of E k crt m "fst l" "snd l" st] b by simp
  show ?case
  proof (cases "sg1 = Next")
    case True
    obtain out2 where r: "sign_loop E k crt m rest st1 = (out2, st', sg)" and o: "out = files1 # out2"
      using Cons.prems b True by (auto split: prod.splits)
    from sign_dir_signed[OF b] True have s1: "NVFLARE_SIG_FILE E \<in> fst ` set files1"
      "NVFLARE_SUBMITTER_CRT_FILE E \<in> fst ` set files1" "fst st + 1 < m" by auto
    from Cons.IH[OF r] obtain v where v: "v \<le> length rest" "fst st' = fst st1 + int v"
      "rest \<noteq> [] \<longrightarrow> 1 \<le> v" "length out2 = length rest" "drop v out2 = map fst (drop v rest)"
      "2 \<le> v \<longrightarrow> fst st1 + int v \<le> m"
      "(\<forall>e. sg \<noteq> Raise e) \<longrightarrow> (v = length rest \<or> m \<le> fst st')
         \<and> (\<forall>i<v. NVFLARE_SIG_FILE E \<in> fst ` set (out2 ! i)
                  \<and> NVFLARE_SUBMITTER_CRT_FILE E \<in> fst ` set (out2 ! i))"
      by blast
    have bound: "2 \<le> Suc v \<longrightarrow> fst st + int (Suc v) \<le> m"
      using v(6) s1(3) d1 by (cases "2 \<le> v") auto
    have signed: "\<forall>i<Suc v. NVFLARE_SIG_FILE E \<in> fst ` set (out ! i)
                      \<and> NVFLARE_SUBMITTER_CRT_FILE E \<in> fst ` set (out ! i)"
      if "\<forall>e. sg \<noteq> Raise e"
    proof (intro allI impI)
      fix i assume "i < Suc v"
      show "NVFLARE_SIG_FILE E \<in> fst ` set (out ! i)
          \<and> NVFLARE_SUBMITTER_CRT_FILE E \<in> fst ` set (out ! i)"
      proof (cases i)
        case 0
        with s1 o show ?thesis by simp
      next
        case (Suc j)
        with \<open>i < Suc v\<close> v(7) that o show ?thesis by simp
      qed
    qed
    show ?thesis
      using v d1 o bound signed by (intro exI[of _ "Suc v"]) auto
  next
    case False
    with Cons.prems b have o: "out = files1 # map fst rest" "st' = st1" "sg = sg1"
      by (auto split: prod.splits signal.splits)
    have "(\<forall>e. sg \<noteq> Raise e) \<longrightarrow> m \<le> fst st'
        \<and> NVFLARE_SIG_FILE E \<in> fst ` set files1
        \<and> NVFLARE_SUBMITTER_CRT_FILE E \<in> fst ` set files1"
    proof
      assume nr: "\<forall>e. sg \<noteq> Raise e"
      with False o have "sg1 = Break" by (cases sg1) auto
      with sign_dir_signed[OF b] nr o d1 show "m \<le> fst st'
        \<and> NVFLARE_SIG_FILE E \<in> fst ` set files1
        \<and> NVFLARE_SUBMITTER_CRT_FILE E \<in> fst ` set files1" by auto
    qed
    then show ?thesis
      using o d1 by (intro exI[of _ 1]) (auto simp: drop_map)
  qed
qed

lemma sign_walk_root_files:
  "files_of (fst (sign_walk E k crt m (Dir files subdirs) st))
     = fst (sign_dir E k crt m files (map fst subdirs) st)"
  by (auto split: prod.splits signal.splits)

lemma sign_walk_budget:
  assumes "fst st + 1 \<ge> m"
  shows "subdirs_of (fst (sign_walk E k crt m (Dir files subdirs) st)) = subdirs"
proof -
  obtain files1 st1 sg1 where b: "sign_dir E k crt m files (map fst subdirs) st = (files1, st1, sg1)"
    by (cases "sign_dir E k crt m files (map fst subdirs) st") auto
  have "sg1 \<noteq> Next"
  proof
    assume "sg1 = Next"
    with sign_dir_signed[OF b] assms show False by auto
  qed
  with b show ?thesis by (cases sg1) auto
qed

lemma sign_folders_walk:
  "sign_walk E key crt m folder (0, 0) = (folder', st, sg) \<Longrightarrow>
   sign_folders E folder key crt m = (folder', case sg of Raise e \<Rightarrow> Inl e | _ \<Rightarrow> Inr ())"
  by (cases sg) (simp_all add: sign_folders_def)

lemma os_walk_nonempty: "os_walk d \<noteq> []"
  by (cases d) simp


lemma sign_loop_rounds:
  assumes "sign_loop E k crt m ls st = (out, st', sg)" "\<forall>e. sg \<noteq> Raise e"
    and "i < nat (fst st' - fst st)"
  shows "\<exists>sti sti' sgi. sign_dir E k crt m (fst (ls ! i)) (snd (ls ! i)) sti = (out ! i, sti', sgi)
      \<and> (\<forall>e. sgi \<noteq> Raise e)"
  using assms
proof (induction ls arbitrary: st out i)
  case Nil
  then show ?case by simp
next
  case (Cons l rest)
  obtain files1 st1 sg1 where b: "sign_dir E k crt m (fst l) (snd l) st = (files1, st1, sg1)"
    by (cases "sign_dir E k crt m (fst l) (snd l) st") auto
  have d1: "fst st1 = fst st + 1"
    using sign_dir_depth[of E k crt m "fst l" "snd l" st] b by simp
  show ?case
  proof (cases "sg1 = Next")
    case True
    obtain out2 where r: "sign_loop E k crt m rest st1 = (out2, st', sg)" and o: "out = files1 # out2"
      using Cons.prems b True by (auto split: prod.splits)
    show ?thesis
    proof (cases i)
      case 0
      with b o True show ?thesis
        by (intro exI[of _ st] exI[of _ st1] exI[of _ Next]) simp
    next
      case (Suc j)
      with Cons.prems(3) d1 have "j < nat (fst st' - fst st1)" by simp
      from Cons.IH[OF r Cons.prems(2) this] Suc o show ?thesis by simp
    qed
  next
    case False
    with Cons.prems b have o: "out = files1 # map fst rest" "st' = st1" "sg = sg1"
      by (auto split: prod.splits signal.splits)
    with Cons.prems(3) d1 have "i = 0" by simp
    with b o Cons.prems(2) show ?thesis
      by (intro exI[of _ st] exI[of _ st1] exI[of _ sg1]) simp
  qed
qed

lemma wf_dir_os_walk:
  "wf_dir d \<Longrightarrow> l \<in> set (os_walk d) \<Longrightarrow> distinct (map fst (fst l) @ snd l)"
proof (induction d arbitrary: l rule: os_walk.induct)
  case (1 files subdirs)
  from "1.prems"(2) consider "l = (files, map fst subdirs)"
    | n d where "(n, d) \<in> set subdirs" "l \<in> set (os_walk d)"
    by auto
  then show ?case
  proof cases
    case 1
    with "1.prems"(1) show ?thesis by simp
  next
    case 2
    with "1.prems"(1) have "wf_dir d" by auto
    from "1.IH"[OF 2(1) refl this 2(2)] show ?thesis .
  qed
qed

lemma sign_content_Str_bytes:
  assumes "sign_content E (Str s) key return_str entropy = Inr sg"
  shows "\<exists>data. utf8_encode s = Inr data
      \<and> sign_content E (Bytes data) key return_str entropy = Inr sg"
proof (cases "utf8_encode s")
  case (Inl e)
  with assms show ?thesis by (simp add: sign_content_def to_bytes_def)
next
  case (Inr data)
  with assms show ?thesis by (simp add: sign_content_Str[OF Inr] sign_content_Bytes)
qed

lemma isfile_open_read:
  "isfile d f \<Longrightarrow> \<exists>data. open_read (files_of d) (map fst (subdirs_of d)) f = Inr data"
  by (auto simp: isfile_def open_read_def split: option.splits entry.splits)

lemma sign_all_loop_total:
  "\<exists>acc'. sign_all_loop E d key names acc = Inr acc'
     \<and> fst ` set (fst acc') = fst ` set (fst acc) \<union> {f \<in> set names. isfile d f}"
proof (induction names arbitrary: acc)
  case Nil
  then show ?case by simp
next
  case (Cons f names)
  show ?case
  proof (cases "isfile d f")
    case True
    then obtain data where r: "open_read (files_of d) (map fst (subdirs_of d)) f = Inr data"
      using isfile_open_read by blast
    let ?s = "Str (map unat (b64encode
        (rsa_sign E key data content_padding content_hash_algo (urandom E (snd acc)))))"
    from Cons[of "(AList.update f ?s (fst acc), Suc (snd acc))"] True r show ?thesis
      by (auto simp: sign_content_Bytes dom_update)
  next
    case False
    with Cons[of acc] show ?thesis by auto
  qed
qed

lemma isfile_distinct:
  assumes "distinct (listdir d)"
  shows "{f \<in> set (listdir d). isfile d f} = {f. \<exists>data. (f, File data) \<in> set (files_of d)}"
proof (cases d)
  case (Dir files subdirs)
  with assms have dist: "distinct (map fst files)" "set (map fst files) \<inter> set (map fst subdirs) = {}"
    by (auto simp: listdir_def)
  have "isfile d f \<longleftrightarrow> (\<exists>data. (f, File data) \<in> set files)" for f
  proof
    assume "isfile d f"
    then obtain data where "map_of files f = Some (File data)"
      by (auto simp: isfile_def Dir split: option.splits entry.splits)
    then show "\<exists>data. (f, File data) \<in> set files" by (auto dest: map_of_SomeD)
  next
    assume "\<exists>data. (f, File data) \<in> set files"
    then obtain data where m: "(f, File data) \<in> set files" by blast
    with dist have "map_of files f = Some (File data)" by simp
    moreover from m dist have "f \<notin> set (map fst subdirs)" by force
    ultimately show "isfile d f" by (simp add: isfile_def Dir)
  qed
  moreover have "f \<in> set (listdir d)" if "(f, File data) \<in> set files" for f data
    using that by (force simp: listdir_def Dir)
  ultimately show ?thesis by (auto simp: Dir)
qed

lemma load_signatures_folders:
  assumes "load_signatures E files folders = Some p"
  shows "NVFLARE_SIG_FILE E \<notin> set folders \<and> NVFLARE_SUBMITTER_CRT_FILE E \<notin> set folders"
proof (intro conjI notI)
  assume "NVFLARE_SIG_FILE E \<in> set folders"
  then have "open_read files folders (NVFLARE_SIG_FILE E) = Inl IsADirectoryError"
    by (simp add: open_read_def)
  with assms show False by (simp add: load_signatures_def)
next
  assume "NVFLARE_SUBMITTER_CRT_FILE E \<in> set folders"
  then have "open_read files folders (NVFLARE_SUBMITTER_CRT_FILE E) = Inl IsADirectoryError"
    by (simp add: open_read_def)
  then have "load_crt E (open_read files folders (NVFLARE_SUBMITTER_CRT_FILE E))
      = Inl IsADirectoryError"
    by (simp add: load_crt_def)
  with assms show False by (simp add: load_signatures_def split: sum.splits option.splits)
qed

lemma sign_dir_ok:
  assumes "NVFLARE_SIG_FILE E \<noteq> NVFLARE_SUBMITTER_CRT_FILE E"
    and "distinct (map fst files @ folders)"
    and "\<forall>(f, e)\<in>set files. f = NVFLARE_SIG_FILE E \<or> f = NVFLARE_SUBMITTER_CRT_FILE E \<or> e \<noteq> Socket"
    and "list_all encodable folders"
    and "NVFLARE_SIG_FILE E \<notin> set folders" "NVFLARE_SUBMITTER_CRT_FILE E \<notin> set folders"
    and "(NVFLARE_SIG_FILE E, Socket) \<notin> set files"
        "(NVFLARE_SUBMITTER_CRT_FILE E, Socket) \<notin> set files"
  shows "\<exists>signatures calls'. sign_entries E key files folders (snd st) = Inr (signatures, calls')
     \<and> sign_dir E key (Inr crt) m files folders st =
         (AList.update (NVFLARE_SUBMITTER_CRT_FILE E) (File crt)
            (AList.update (NVFLARE_SIG_FILE E) (File (json_dump E signatures)) files),
          (fst st + 1, calls'), if fst st + 1 \<ge> m then Break else Next)"
proof -
  have a: "\<forall>f\<in>set (map fst files). f = NVFLARE_SIG_FILE E \<or> f = NVFLARE_SUBMITTER_CRT_FILE E
      \<or> (\<exists>data. open_read files folders f = Inr data)"
  proof
    fix f assume "f \<in> set (map fst files)"
    then obtain e where e: "(f, e) \<in> set files" by auto
    show "f = NVFLARE_SIG_FILE E \<or> f = NVFLARE_SUBMITTER_CRT_FILE E
      \<or> (\<exists>data. open_read files folders f = Inr data)"
      using assms(3) e open_read_entry[OF assms(2) e] by (cases e) auto
  qed
  have b: "\<forall>f\<in>set folders. encodable f" using assms(4) by (simp add: list_all_iff)
  from sign_entries_total[OF a b, where key=key and calls="snd st"]
  obtain signatures calls' where
    se: "sign_entries E key files folders (snd st) = Inr (signatures, calls')"
    by blast
  from assms(2) have dist: "distinct (map fst files)" by simp
  have m1: "map_of files (NVFLARE_SIG_FILE E) \<noteq> Some Socket"
    using assms(7) by (auto dest: map_of_SomeD)
  have m2: "map_of files (NVFLARE_SUBMITTER_CRT_FILE E) \<noteq> Some Socket"
    using assms(8) by (auto dest: map_of_SomeD)
  have w: "write_file files folders (NVFLARE_SIG_FILE E) (json_dump E signatures)
      = Inr (AList.update (NVFLARE_SIG_FILE E) (File (json_dump E signatures)) files)"
    using assms(5) m1 by (auto simp: write_file_def split: option.splits entry.splits)
  have c: "copyfile (Inr crt) (AList.update (NVFLARE_SIG_FILE E) (File (json_dump E signatures)) files)
        folders (NVFLARE_SUBMITTER_CRT_FILE E)
      = Inr (AList.update (NVFLARE_SUBMITTER_CRT_FILE E) (File crt)
            (AList.update (NVFLARE_SIG_FILE E) (File (json_dump E signatures)) files))"
    using assms(1,6) m2
    by (auto simp: copyfile_def write_file_def update_conv' split: option.splits entry.splits)
  from se w c show ?thesis by (simp add: sign_dir_def)
qed


lemma sign_folders_fst:
  "fst (sign_folders E folder key crt m) = fst (sign_walk E key crt m folder (0, 0))"
  by (simp add: sign_folders_def split: prod.splits signal.splits)


section \<open>The claims\<close>

text \<open>
  C1, as amended. For every content that is raw bytes (the empty byte string included)
  or a text that \<open>encode("utf-8")\<close> accepts, and every key pair, \<open>sign_content\<close>
  returns a signature and \<open>verify_content\<close> of the same content and that signature
  under the public key returns without an error; this holds for the signature as
  base64 text (\<open>return_str = True\<close>) and as raw bytes (\<open>return_str = False\<close>).
\<close>

theorem sign_then_verify_succeeds:
  assumes "key_pair E priv pub"
    and "case content of Str s \<Rightarrow> encodable s | Bytes b \<Rightarrow> True | Other \<Rightarrow> False"
  shows "\<exists>sg. sign_content E content priv return_str entropy = Inr sg
           \<and> verify_content E content sg pub = Inr ()"
proof (cases content)
  case (Str s)
  with assms(2) obtain data where d: "utf8_encode s = Inr data"
    using utf8_encode_encodable by auto
  show ?thesis
    using assms(1) unfolding Str key_pair_def
    by (simp add: sign_content_Str[OF d] verify_content_Str[OF d] signature_bytes_b64
          signature_bytes_Bytes)
next
  case (Bytes data)
  show ?thesis
    using assms(1) unfolding Bytes key_pair_def
    by (simp add: sign_content_Bytes verify_content_Bytes signature_bytes_b64 signature_bytes_Bytes)
next
  case Other
  with assms(2) show ?thesis by simp
qed

text \<open>The theorem at the empty byte string, under the stand-in library.\<close>

theorem sign_then_verify_succeeds_witness:
  "key_pair (toy_env [] []) 7 7
   \<and> sign_content (toy_env [] []) (Bytes []) 7 True 0 = Inr (Str [66, 119, 69, 65])
   \<and> verify_content (toy_env [] []) (Bytes []) (Str [66, 119, 69, 65]) 7 = Inr ()"
proof -
  have k: "key_pair (toy_env [] []) 7 7" by (rule toy_key_pair)
  have s: "sign_content (toy_env [] []) (Bytes []) 7 True 0 = Inr (Str [66, 119, 69, 65])"
    by (simp add: sign_content_def to_bytes_def toy_env_def toy_sign_def pad_tag_def
          content_padding_def b64_char_def decoded_def)
  from sign_then_verify_succeeds[OF k, of "Bytes []" True 0]
  have "verify_content (toy_env [] []) (Bytes []) (Str [66, 119, 69, 65]) 7 = Inr ()"
    unfolding s by simp
  with k s show ?thesis by (intro conjI)
qed

text \<open>
  C1 as stated covers every text. A text holding a lone surrogate (here the one code
  point \<open>U+D800\<close>, as a file name decoded with \<open>surrogateescape\<close> may) is refused by
  \<open>content.encode("utf-8")\<close>, so \<open>sign_content\<close> raises, under a matching key pair.
\<close>

theorem surrogate_content_counterexample:
  "key_pair (toy_env [] []) 7 7
   \<and> sign_content (toy_env [] []) (Str [0xD800]) 7 True 0 = Inl UnicodeEncodeError"
  by (simp add: toy_key_pair sign_content_def to_bytes_def utf8_char_def)

text \<open>
  C7. \<open>verify_cert\<close> is one call: the issuer's key verifies the certificate's
  signature over its to-be-signed bytes with PKCS#1 v1.5 padding (which is not the
  padding of \<open>sign_content\<close>) and the hash algorithm the certificate names; a
  mismatch is \<open>InvalidSignature\<close>. Nothing else of the certificate is read: changing
  its validity period or its subject key changes nothing.
\<close>

theorem verify_cert_pkcs1v15:
  "verify_cert E cert issuer_key =
     (if rsa_verify E issuer_key (cert_signature cert) (cert_tbs_certificate_bytes cert)
           PKCS1v15 (cert_signature_hash_algorithm cert)
      then Inr () else Inl InvalidSignature)
   \<and> PKCS1v15 \<noteq> content_padding
   \<and> verify_cert E
       (cert\<lparr>cert_public_key := k, cert_not_valid_before := t0, cert_not_valid_after := t1\<rparr>)
       issuer_key = verify_cert E cert issuer_key"
  by (simp add: verify_cert_def content_padding_def)


text \<open>
  C2, as amended. \<open>verify_folder_signature\<close> always returns a boolean and never
  raises. With the root certificate loaded, take a directory of the walk whose manifest
  and certificate load. If its certificate fails \<open>verify_cert\<close> against the root key,
  or a file of it that bears no reserved name has a recorded signature that Python
  counts as true (a non-empty string, or any other non-empty value) and that fails
  \<open>verify_content\<close> against the file's bytes, or a subfolder of it has such a recorded
  signature that fails against the subfolder's name, the result is \<open>False\<close> for the
  whole tree; and the loop ends at the first directory that fails: what the walk
  yields after it has no part in the result.
\<close>

theorem verify_folder_signature_rejects:
  assumes "load_crt E root_ca_file = Inr ca"
    and "(files, folders) \<in> set (os_walk src_folder)"
    and "load_signatures E files folders = Some (signatures, cert)"
  shows
    "(\<exists>b. verify_folder_signature E src_folder root_ca_file = Inr b)
     \<and> (verify_cert E cert (cert_public_key ca) \<noteq> Inr ()
          \<longrightarrow> verify_folder_signature E src_folder root_ca_file = Inr False)
     \<and> (file \<in> set (map fst files) \<and> file \<noteq> NVFLARE_SIG_FILE E
          \<and> file \<noteq> NVFLARE_SUBMITTER_CRT_FILE E
          \<and> signatures_get signatures file = Inr (Some v) \<and> truthy (Some v)
          \<and> open_read files folders file = Inr content
          \<and> verify_content E (Bytes content) (json_pyobj (Some v)) (cert_public_key cert) \<noteq> Inr ()
          \<longrightarrow> verify_folder_signature E src_folder root_ca_file = Inr False)
     \<and> (folder \<in> set folders
          \<and> signatures_get signatures folder = Inr (Some v') \<and> truthy (Some v')
          \<and> verify_content E (Str folder) (json_pyobj (Some v')) (cert_public_key cert) \<noteq> Inr ()
          \<longrightarrow> verify_folder_signature E src_folder root_ca_file = Inr False)
     \<and> (os_walk src_folder = before @ (files, folders) # after
          \<and> verify_dir E (cert_public_key ca) (files, folders) \<noteq> Inr ()
          \<longrightarrow> verify_loop E (cert_public_key ca) (os_walk src_folder)
              = verify_loop E (cert_public_key ca) (before @ [(files, folders)]))"
proof (intro conjI impI)
  show "\<exists>b. verify_folder_signature E src_folder root_ca_file = Inr b"
    by (rule verify_folder_signature_returns)
  have dir: "verify_dir E (cert_public_key ca) (files, folders)
      = verify_checks E (cert_public_key ca) signatures cert files folders"
    using assms(3) by (simp add: verify_dir_def)
  note fails = verify_dir_fails[OF assms(1) assms(2)]
  {
    assume "verify_cert E cert (cert_public_key ca) \<noteq> Inr ()"
    then show "verify_folder_signature E src_folder root_ca_file = Inr False"
      by (intro fails) (simp add: dir verify_checks_fails_cert)
  next
    assume a: "file \<in> set (map fst files) \<and> file \<noteq> NVFLARE_SIG_FILE E
          \<and> file \<noteq> NVFLARE_SUBMITTER_CRT_FILE E
          \<and> signatures_get signatures file = Inr (Some v) \<and> truthy (Some v)
          \<and> open_read files folders file = Inr content
          \<and> verify_content E (Bytes content) (json_pyobj (Some v)) (cert_public_key cert) \<noteq> Inr ()"
    then have "verify_file E signatures (cert_public_key cert) files folders file \<noteq> Inr ()"
      by (simp add: verify_file_def)
    with a show "verify_folder_signature E src_folder root_ca_file = Inr False"
      unfolding dir by (intro fails[unfolded dir] verify_checks_fails_file) blast+
  next
    assume a: "folder \<in> set folders
          \<and> signatures_get signatures folder = Inr (Some v') \<and> truthy (Some v')
          \<and> verify_content E (Str folder) (json_pyobj (Some v')) (cert_public_key cert) \<noteq> Inr ()"
    then have "verify_folder E signatures (cert_public_key cert) folder \<noteq> Inr ()"
      by (simp add: verify_folder_def)
    with a show "verify_folder_signature E src_folder root_ca_file = Inr False"
      unfolding dir by (intro fails[unfolded dir] verify_checks_fails_folder) blast+
  next
    assume a: "os_walk src_folder = before @ (files, folders) # after
          \<and> verify_dir E (cert_public_key ca) (files, folders) \<noteq> Inr ()"
    then obtain e where "verify_dir E (cert_public_key ca) (files, folders) = Inl e"
      by (cases "verify_dir E (cert_public_key ca) (files, folders)") auto
    from verify_loop_stops[OF this] a
    show "verify_loop E (cert_public_key ca) (os_walk src_folder)
              = verify_loop E (cert_public_key ca) (before @ [(files, folders)])"
      by simp
  }
qed

text \<open>The theorem at the example directory whose manifest records \<open>AAAA\<close> for the
  file \<open>a\<close>.\<close>

theorem verify_folder_signature_rejects_witness:
  "load_crt example_env (Inr [1]) = Inr example_ca
   \<and> (fst (hd (os_walk (example_dir [12]))), snd (hd (os_walk (example_dir [12]))))
       \<in> set (os_walk (example_dir [12]))
   \<and> load_signatures example_env (fst (hd (os_walk (example_dir [12]))))
        (snd (hd (os_walk (example_dir [12]))))
       = Some (JObj [(str_of ''a'', JStr (str_of ''AAAA''))], example_cert)
   \<and> str_of ''a'' \<in> set (map fst (fst (hd (os_walk (example_dir [12])))))
   \<and> str_of ''a'' \<noteq> NVFLARE_SIG_FILE example_env
   \<and> str_of ''a'' \<noteq> NVFLARE_SUBMITTER_CRT_FILE example_env
   \<and> signatures_get (JObj [(str_of ''a'', JStr (str_of ''AAAA''))]) (str_of ''a'')
       = Inr (Some (JStr (str_of ''AAAA'')))
   \<and> truthy (Some (JStr (str_of ''AAAA'')))
   \<and> open_read (fst (hd (os_walk (example_dir [12])))) (snd (hd (os_walk (example_dir [12]))))
        (str_of ''a'') = Inr [0x61]
   \<and> verify_content example_env (Bytes [0x61]) (json_pyobj (Some (JStr (str_of ''AAAA''))))
        (cert_public_key example_cert) = Inl InvalidSignature
   \<and> verify_folder_signature example_env (example_dir [12]) (Inr [1]) = Inr False"
proof -
  let ?l = "hd (os_walk (example_dir [12]))"
  let ?m = "JObj [(str_of ''a'', JStr (str_of ''AAAA''))]"
  have 1: "load_crt example_env (Inr [1]) = Inr example_ca" by code_simp
  have 2: "(fst ?l, snd ?l) \<in> set (os_walk (example_dir [12]))" by code_simp
  have 3: "load_signatures example_env (fst ?l) (snd ?l) = Some (?m, example_cert)" by code_simp
  have 4: "str_of ''a'' \<in> set (map fst (fst ?l))" by code_simp
  have 5: "str_of ''a'' \<noteq> NVFLARE_SIG_FILE example_env" by code_simp
  have 6: "str_of ''a'' \<noteq> NVFLARE_SUBMITTER_CRT_FILE example_env" by code_simp
  have 7: "signatures_get ?m (str_of ''a'') = Inr (Some (JStr (str_of ''AAAA'')))" by code_simp
  have 8: "truthy (Some (JStr (str_of ''AAAA'')))" by code_simp
  have 9: "open_read (fst ?l) (snd ?l) (str_of ''a'') = Inr [0x61]" by code_simp
  have 10: "verify_content example_env (Bytes [0x61]) (json_pyobj (Some (JStr (str_of ''AAAA''))))
        (cert_public_key example_cert) = Inl InvalidSignature" by code_simp
  from 10 have 11: "verify_content example_env (Bytes [0x61])
      (json_pyobj (Some (JStr (str_of ''AAAA'')))) (cert_public_key example_cert) \<noteq> Inr ()"
    by simp
  from verify_folder_signature_rejects[OF 1 2 3, of "str_of ''a''" "JStr (str_of ''AAAA'')" "[0x61]"]
    4 5 6 7 8 9 11
  have 12: "verify_folder_signature example_env (example_dir [12]) (Inr [1]) = Inr False"
    by blast
  from 1 2 3 4 5 6 7 8 9 10 12 show ?thesis by (intro conjI)
qed

text \<open>
  C2 as stated covers any recorded signature. A manifest that records the empty
  string for a file is read by \<open>if signature:\<close> as recording nothing: the empty
  signature fails \<open>verify_content\<close> against the file's bytes, the manifest and the
  certificate load and the certificate is valid, and the result is \<open>True\<close>.
\<close>

theorem empty_signature_counterexample:
  "load_crt example_env (Inr [1]) = Inr example_ca
   \<and> load_signatures example_env (fst (hd (os_walk (example_dir [11]))))
        (snd (hd (os_walk (example_dir [11]))))
       = Some (JObj [(str_of ''a'', JStr [])], example_cert)
   \<and> verify_cert example_env example_cert (cert_public_key example_ca) = Inr ()
   \<and> open_read (fst (hd (os_walk (example_dir [11])))) (snd (hd (os_walk (example_dir [11]))))
        (str_of ''a'') = Inr [0x61]
   \<and> verify_content example_env (Bytes [0x61]) (Str []) (cert_public_key example_cert)
        = Inl InvalidSignature
   \<and> verify_folder_signature example_env (example_dir [11]) (Inr [1]) = Inr True"
  by code_simp


text \<open>
  C3. With the root certificate loaded: a directory whose manifest file or certificate
  file cannot be read or parsed is skipped, whatever it holds (the inner \<open>try\<close> block
  gives nothing and the round ends with \<open>Inr ()\<close>); the result is \<open>True\<close> exactly when
  every directory of the walk whose manifest and certificate do load passes its
  checks; and a file or subfolder that the manifest has no key for is accepted.
\<close>

theorem unsigned_directory_skipped:
  assumes "load_crt E root_ca_file = Inr ca"
  shows
    "(((\<forall>text. open_read files folders (NVFLARE_SIG_FILE E) = Inr text \<longrightarrow> json_load E text = None)
       \<or> (\<forall>data. open_read files folders (NVFLARE_SUBMITTER_CRT_FILE E) = Inr data
             \<longrightarrow> load_pem_x509_certificate E data = None))
      \<longrightarrow> load_signatures E files folders = None \<and> verify_dir E pk (files, folders) = Inr ())
     \<and> (verify_folder_signature E src_folder root_ca_file = Inr True \<longleftrightarrow>
          (\<forall>l\<in>set (os_walk src_folder).
             load_signatures E (fst l) (snd l) \<noteq> None
               \<longrightarrow> verify_dir E (cert_public_key ca) l = Inr ()))
     \<and> (map_of items name = None
          \<longrightarrow> verify_file E (JObj items) pk' files folders name = Inr ()
            \<and> verify_folder E (JObj items) pk' name = Inr ())"
proof (intro conjI impI)
  assume a: "(\<forall>text. open_read files folders (NVFLARE_SIG_FILE E) = Inr text \<longrightarrow> json_load E text = None)
       \<or> (\<forall>data. open_read files folders (NVFLARE_SUBMITTER_CRT_FILE E) = Inr data
             \<longrightarrow> load_pem_x509_certificate E data = None)"
  show n: "load_signatures E files folders = None" by (rule load_signatures_None[OF a])
  show "verify_dir E pk (files, folders) = Inr ()" by (simp add: verify_dir_def n)
next
  have skip: "verify_dir E (cert_public_key ca) l = Inr ()"
    if "load_signatures E (fst l) (snd l) = None" for l
    using that by (simp add: verify_dir_def)
  show "verify_folder_signature E src_folder root_ca_file = Inr True \<longleftrightarrow>
          (\<forall>l\<in>set (os_walk src_folder).
             load_signatures E (fst l) (snd l) \<noteq> None
               \<longrightarrow> verify_dir E (cert_public_key ca) l = Inr ())"
  proof -
    have "(\<forall>l\<in>set (os_walk src_folder). verify_dir E (cert_public_key ca) l = Inr ()) \<longleftrightarrow>
          (\<forall>l\<in>set (os_walk src_folder).
             load_signatures E (fst l) (snd l) \<noteq> None
               \<longrightarrow> verify_dir E (cert_public_key ca) l = Inr ())"
      using skip by blast
    then show ?thesis unfolding verify_folder_signature_True_iff using assms by simp
  qed
next
  assume "map_of items name = None"
  then show "verify_file E (JObj items) pk' files folders name = Inr ()"
    by (rule verify_file_absent)
next
  assume "map_of items name = None"
  then show "verify_folder E (JObj items) pk' name = Inr ()"
    by (rule verify_folder_absent)
qed

text \<open>The theorem at the example directory whose manifest text \<open>[13]\<close> does not
  parse.\<close>

theorem unsigned_directory_skipped_witness:
  "load_crt example_env (Inr [1]) = Inr example_ca
   \<and> open_read (fst (hd (os_walk (example_dir [13])))) (snd (hd (os_walk (example_dir [13]))))
        (NVFLARE_SIG_FILE example_env) = Inr [13]
   \<and> json_load example_env [13] = None
   \<and> load_signatures example_env (fst (hd (os_walk (example_dir [13]))))
        (snd (hd (os_walk (example_dir [13])))) = None
   \<and> verify_dir example_env 1 (hd (os_walk (example_dir [13]))) = Inr ()"
proof -
  let ?l = "hd (os_walk (example_dir [13]))"
  have 1: "load_crt example_env (Inr [1]) = Inr example_ca" by code_simp
  have 2: "open_read (fst ?l) (snd ?l) (NVFLARE_SIG_FILE example_env) = Inr [13]" by code_simp
  have 3: "json_load example_env [13] = None" by code_simp
  have 4: "(\<forall>text. open_read (fst ?l) (snd ?l) (NVFLARE_SIG_FILE example_env) = Inr text
              \<longrightarrow> json_load example_env text = None)
       \<or> (\<forall>data. open_read (fst ?l) (snd ?l) (NVFLARE_SUBMITTER_CRT_FILE example_env) = Inr data
             \<longrightarrow> load_pem_x509_certificate example_env data = None)"
    using 2 3 by simp
  from unsigned_directory_skipped[OF 1, of "fst ?l" "snd ?l" 1] 4
  have 5: "load_signatures example_env (fst ?l) (snd ?l) = None
      \<and> verify_dir example_env 1 (fst ?l, snd ?l) = Inr ()"
    by blast
  from 1 2 3 5 show ?thesis by simp
qed

text \<open>
  C9. If the result is \<open>True\<close>, it is still \<open>True\<close> after any one file is removed from
  any directory of the tree (the manifest and the certificate stay as they are, unless
  they are the file removed, in which case the directory is skipped); and the checks
  of a directory read the manifest only at the names of the entries that are there: a
  manifest cut down to those keys gives the same outcome.
\<close>

theorem deleted_file_not_examined:
  "(verify_folder_signature E src_folder root_ca_file = Inr True
      \<longrightarrow> verify_folder_signature E (remove_file path name src_folder) root_ca_file = Inr True)
   \<and> verify_checks E pk (restrict_keys (set (map fst files) \<union> set folders) signatures) cert
        files folders
     = verify_checks E pk signatures cert files folders"
proof (intro conjI impI)
  show "verify_checks E pk (restrict_keys (set (map fst files) \<union> set folders) signatures) cert
        files folders = verify_checks E pk signatures cert files folders"
    by (rule verify_checks_restrict) auto
next
  assume a: "verify_folder_signature E src_folder root_ca_file = Inr True"
  then obtain ca where ca: "load_crt E root_ca_file = Inr ca"
    and ok: "\<forall>l\<in>set (os_walk src_folder). verify_dir E (cert_public_key ca) l = Inr ()"
    unfolding verify_folder_signature_True_iff by blast
  have "verify_dir E (cert_public_key ca) l = Inr ()"
    if "l \<in> set (os_walk (remove_file path name src_folder))" for l
  proof -
    from os_walk_remove_file[OF that] show ?thesis
    proof
      assume "l \<in> set (os_walk src_folder)"
      with ok show ?thesis by blast
    next
      assume "\<exists>files. (files, snd l) \<in> set (os_walk src_folder) \<and> fst l = AList.delete name files"
      then obtain fs where f: "(fs, snd l) \<in> set (os_walk src_folder)"
        and l: "fst l = AList.delete name fs" by blast
      from ok f have "verify_dir E (cert_public_key ca) (fs, snd l) = Inr ()" by blast
      from verify_dir_delete[OF this, of name] l show ?thesis by (cases l) simp
    qed
  qed
  with ca show "verify_folder_signature E (remove_file path name src_folder) root_ca_file = Inr True"
    unfolding verify_folder_signature_True_iff by blast
qed

text \<open>The theorem at the signed example directory, with the signed file \<open>a\<close>
  removed.\<close>

theorem deleted_file_not_examined_witness:
  "verify_folder_signature example_env (example_dir [10]) (Inr [1]) = Inr True
   \<and> remove_file [] (str_of ''a'') (example_dir [10]) =
       Dir [(NVFLARE_SIG_FILE example_env, File [10]),
            (NVFLARE_SUBMITTER_CRT_FILE example_env, File [2])]
           [(str_of ''sub'', Dir [(str_of ''b'', File [0x62])] [])]
   \<and> verify_folder_signature example_env (remove_file [] (str_of ''a'') (example_dir [10]))
        (Inr [1]) = Inr True"
proof -
  have 1: "verify_folder_signature example_env (example_dir [10]) (Inr [1]) = Inr True"
    by code_simp
  have 2: "remove_file [] (str_of ''a'') (example_dir [10]) =
       Dir [(NVFLARE_SIG_FILE example_env, File [10]),
            (NVFLARE_SUBMITTER_CRT_FILE example_env, File [2])]
           [(str_of ''sub'', Dir [(str_of ''b'', File [0x62])] [])]"
    by code_simp
  from deleted_file_not_examined[of example_env "example_dir [10]" "Inr [1]" "[]" "str_of ''a''"] 1
  have 3: "verify_folder_signature example_env (remove_file [] (str_of ''a'') (example_dir [10]))
        (Inr [1]) = Inr True"
    by blast
  from 1 2 3 show ?thesis by (intro conjI)
qed


text \<open>
  C4. Take the loop of \<open>sign_folders\<close> from the counter \<open>0\<close> to its end, with the final
  counter \<open>depth\<close>. The counter is one per directory visited, whatever its level in
  the tree: it is at least \<open>1\<close>, at most the number of directories and at most
  \<open>max 1 max_depth\<close>; the directories after the first \<open>depth\<close> of the walk are exactly as
  they were; and when no exception was raised, \<open>depth\<close> is the smaller of the number of
  directories and \<open>max 1 max_depth\<close>, and each of the first \<open>depth\<close> directories holds a
  manifest file and a certificate file. In particular with a budget of \<open>1\<close> (or less)
  the counter ends at \<open>1\<close> and the subdirectories of the root are as they were: none
  receives a manifest or a certificate.
\<close>

theorem sign_folders_visit_budget:
  assumes "sign_walk E key crt_file max_depth folder (0, 0) = (folder', (depth, calls), sg)"
  shows "sign_folders E folder key crt_file max_depth
           = (folder', case sg of Raise e \<Rightarrow> Inl e | _ \<Rightarrow> Inr ())
     \<and> 1 \<le> depth \<and> depth \<le> int (length (os_walk folder)) \<and> depth \<le> max 1 max_depth
     \<and> length (os_walk folder') = length (os_walk folder)
     \<and> drop (nat depth) (os_walk folder') = drop (nat depth) (os_walk folder)
     \<and> ((\<forall>e. sg \<noteq> Raise e) \<longrightarrow>
          depth = min (int (length (os_walk folder))) (max 1 max_depth)
          \<and> (\<forall>i<nat depth.
                NVFLARE_SIG_FILE E \<in> fst ` set (fst (os_walk folder' ! i))
                \<and> NVFLARE_SUBMITTER_CRT_FILE E \<in> fst ` set (fst (os_walk folder' ! i))))
     \<and> (max_depth \<le> 1 \<longrightarrow> depth = 1 \<and> subdirs_of folder' = subdirs_of folder)"
proof -
  let ?ls = "os_walk folder" and ?ls' = "os_walk folder'"
  from sign_walk_loop[of E key crt_file max_depth folder "(0, 0)"] assms
  have loop: "sign_loop E key crt_file max_depth ?ls (0, 0) = (map fst ?ls', (depth, calls), sg)"
    and names: "map snd ?ls' = map snd ?ls"
    by simp_all
  from sign_loop_visited[OF loop] obtain v where v: "v \<le> length ?ls" "depth = int v"
    "?ls \<noteq> [] \<longrightarrow> 1 \<le> v" "length (map fst ?ls') = length ?ls"
    "drop v (map fst ?ls') = map fst (drop v ?ls)"
    "2 \<le> v \<longrightarrow> int v \<le> max_depth"
    "(\<forall>e. sg \<noteq> Raise e) \<longrightarrow> (v = length ?ls \<or> max_depth \<le> depth)
       \<and> (\<forall>i<v. NVFLARE_SIG_FILE E \<in> fst ` set (map fst ?ls' ! i)
                \<and> NVFLARE_SUBMITTER_CRT_FILE E \<in> fst ` set (map fst ?ls' ! i))"
    by auto
  have v1: "1 \<le> v" using v(3) os_walk_nonempty by blast
  have len: "length ?ls' = length ?ls" using v(4) by simp
  have "map fst (drop v ?ls') = map fst (drop v ?ls)" using v(5) by (simp add: drop_map)
  moreover have "map snd (drop v ?ls') = map snd (drop v ?ls)" using names by (metis drop_map)
  ultimately have dr: "drop v ?ls' = drop v ?ls" by (rule pair_list_eqI)
  have bound: "depth \<le> max 1 max_depth" using v(2,6) v1 by (cases "2 \<le> v") auto
  have nr: "depth = min (int (length ?ls)) (max 1 max_depth)
          \<and> (\<forall>i<nat depth.
                NVFLARE_SIG_FILE E \<in> fst ` set (fst (?ls' ! i))
                \<and> NVFLARE_SUBMITTER_CRT_FILE E \<in> fst ` set (fst (?ls' ! i)))"
    if "\<forall>e. sg \<noteq> Raise e"
  proof
    from that v(7) have c: "v = length ?ls \<or> max_depth \<le> depth" by blast
    with bound v(1,2) v1 show "depth = min (int (length ?ls)) (max 1 max_depth)" by auto
    show "\<forall>i<nat depth. NVFLARE_SIG_FILE E \<in> fst ` set (fst (?ls' ! i))
                \<and> NVFLARE_SUBMITTER_CRT_FILE E \<in> fst ` set (fst (?ls' ! i))"
    proof (intro allI impI)
      fix i assume "i < nat depth"
      with v(2) have i: "i < v" by simp
      with v(1) len have "map fst ?ls' ! i = fst (?ls' ! i)" by simp
      with that v(7) i show "NVFLARE_SIG_FILE E \<in> fst ` set (fst (?ls' ! i))
                \<and> NVFLARE_SUBMITTER_CRT_FILE E \<in> fst ` set (fst (?ls' ! i))" by metis
    qed
  qed
  have budget: "depth = 1 \<and> subdirs_of folder' = subdirs_of folder" if "max_depth \<le> 1"
  proof
    from that v(6) v1 v(2) show "depth = 1" by (cases "2 \<le> v") auto
    obtain files subdirs where d: "folder = Dir files subdirs" by (cases folder)
    from sign_walk_budget[of max_depth "(0, 0)" E key crt_file files subdirs] that assms d
    show "subdirs_of folder' = subdirs_of folder" by simp
  qed
  have d1: "1 \<le> depth" "depth \<le> int (length ?ls)" using v(1,2) v1 by simp_all
  have drd: "drop (nat depth) ?ls' = drop (nat depth) ?ls" using dr v(2) by simp
  from sign_folders_walk[OF assms] d1 len drd bound nr budget show ?thesis
    by blast
qed


text \<open>The theorem on the example tree (the root, \<open>x\<close>, \<open>x/y\<close> and \<open>z\<close>, in the order of
  the walk) with the budget \<open>3\<close>: the walk ends after \<open>x/y\<close>, two levels down, and \<open>z\<close>,
  one level down, is left unsigned.\<close>

theorem sign_folders_visit_budget_witness:
  "sign_walk example_env 5 (Inr [2]) 3 example_tree (0, 0)
     = (fst (sign_folders example_env example_tree 5 (Inr [2]) 3), (3, 5), Break)
   \<and> length (os_walk example_tree) = 4
   \<and> os_walk example_tree ! 3 = ([], [])
   \<and> drop 3 (os_walk (fst (sign_folders example_env example_tree 5 (Inr [2]) 3)))
       = drop 3 (os_walk example_tree)
   \<and> NVFLARE_SIG_FILE example_env
       \<in> fst ` set (fst (os_walk (fst (sign_folders example_env example_tree 5 (Inr [2]) 3)) ! 2))"
proof -
  let ?t = "fst (sign_folders example_env example_tree 5 (Inr [2]) 3)"
  have h: "sign_walk example_env 5 (Inr [2]) 3 example_tree (0, 0) = (?t, (3, 5), Break)"
    by code_simp
  have l: "length (os_walk example_tree) = 4" by code_simp
  have z: "os_walk example_tree ! 3 = ([], [])" by code_simp
  note t = sign_folders_visit_budget[OF h]
  from t have d: "drop 3 (os_walk ?t) = drop 3 (os_walk example_tree)" by simp
  from t have "\<forall>i<nat 3. NVFLARE_SIG_FILE example_env \<in> fst ` set (fst (os_walk ?t ! i))"
    by simp
  then have s: "NVFLARE_SIG_FILE example_env \<in> fst ` set (fst (os_walk ?t ! 2))" by simp
  from h l z d s show ?thesis by (intro conjI)
qed


text \<open>
  C10. The body writes the manifest and the certificate before it tests the counter.
  When nothing in the root makes the body raise (the two reserved names differ, no two
  entries share a name, every file that bears no reserved name is a regular file, every
  subfolder name can be encoded, and neither reserved name is taken by a subfolder or a
  socket) and the certificate can be read, the root holds the manifest of its entries
  and the certificate after the call, for every \<open>max_depth\<close>, zero and negative values
  included, and whatever happens in the subdirectories afterwards.
\<close>

theorem sign_folders_signs_root:
  assumes "NVFLARE_SIG_FILE E \<noteq> NVFLARE_SUBMITTER_CRT_FILE E"
    and "distinct (map fst files @ map fst subdirs)"
    and "\<forall>(f, e)\<in>set files. f = NVFLARE_SIG_FILE E \<or> f = NVFLARE_SUBMITTER_CRT_FILE E \<or> e \<noteq> Socket"
    and "list_all encodable (map fst subdirs)"
    and "NVFLARE_SIG_FILE E \<notin> set (map fst subdirs)"
    and "NVFLARE_SUBMITTER_CRT_FILE E \<notin> set (map fst subdirs)"
    and "(NVFLARE_SIG_FILE E, Socket) \<notin> set files"
    and "(NVFLARE_SUBMITTER_CRT_FILE E, Socket) \<notin> set files"
  shows "\<exists>signatures calls.
      sign_entries E key files (map fst subdirs) 0 = Inr (signatures, calls)
      \<and> map_of (files_of (fst (sign_folders E (Dir files subdirs) key (Inr crt) max_depth)))
           (NVFLARE_SIG_FILE E) = Some (File (json_dump E signatures))
      \<and> map_of (files_of (fst (sign_folders E (Dir files subdirs) key (Inr crt) max_depth)))
           (NVFLARE_SUBMITTER_CRT_FILE E) = Some (File crt)"
proof -
  from sign_dir_ok[OF assms, where st="(0, 0)" and key=key and crt=crt and m=max_depth]
  obtain signatures calls where
    se: "sign_entries E key files (map fst subdirs) 0 = Inr (signatures, calls)"
    and sd: "fst (sign_dir E key (Inr crt) max_depth files (map fst subdirs) (0, 0)) =
         AList.update (NVFLARE_SUBMITTER_CRT_FILE E) (File crt)
            (AList.update (NVFLARE_SIG_FILE E) (File (json_dump E signatures)) files)"
    by auto
  have "files_of (fst (sign_folders E (Dir files subdirs) key (Inr crt) max_depth)) =
      AList.update (NVFLARE_SUBMITTER_CRT_FILE E) (File crt)
            (AList.update (NVFLARE_SIG_FILE E) (File (json_dump E signatures)) files)"
    unfolding sign_folders_fst sign_walk_root_files sd ..
  with se assms(1) show ?thesis by (simp add: update_conv')
qed

text \<open>The theorem on the example tree with the budgets \<open>-3\<close> and \<open>0\<close>.\<close>

theorem sign_folders_signs_root_witness:
  "map_of (files_of (fst (sign_folders example_env example_tree 5 (Inr [2]) (- 3))))
       (NVFLARE_SIG_FILE example_env) = Some (File [97, 58, 120, 58, 122, 58])
   \<and> map_of (files_of (fst (sign_folders example_env example_tree 5 (Inr [2]) (- 3))))
       (NVFLARE_SUBMITTER_CRT_FILE example_env) = Some (File [2])
   \<and> map_of (files_of (fst (sign_folders example_env example_tree 5 (Inr [2]) 0)))
       (NVFLARE_SUBMITTER_CRT_FILE example_env) = Some (File [2])"
proof -
  let ?files = "[(str_of ''a'', File [0x61])]"
  let ?subdirs = "[(str_of ''x'', Dir [(str_of ''b'', File [0x62])] [(str_of ''y'', Dir [] [])]),
         (str_of ''z'', Dir [] [])]"
  let ?r = "sign_entries example_env 5 ?files (map fst ?subdirs) 0"
  have t: "example_tree = Dir ?files ?subdirs" by (simp only: example_tree_def)
  have 1: "NVFLARE_SIG_FILE example_env \<noteq> NVFLARE_SUBMITTER_CRT_FILE example_env" by code_simp
  have 2: "distinct (map fst ?files @ map fst ?subdirs)" by code_simp
  have 3: "\<forall>(f, e)\<in>set ?files. f = NVFLARE_SIG_FILE example_env
      \<or> f = NVFLARE_SUBMITTER_CRT_FILE example_env \<or> e \<noteq> Socket" by simp
  have 4: "list_all encodable (map fst ?subdirs)" by (simp add: encodable_def str_of_def)
  have 5: "NVFLARE_SIG_FILE example_env \<notin> set (map fst ?subdirs)" by code_simp
  have 6: "NVFLARE_SUBMITTER_CRT_FILE example_env \<notin> set (map fst ?subdirs)" by code_simp
  have 7: "(NVFLARE_SIG_FILE example_env, Socket) \<notin> set ?files" by simp
  have 8: "(NVFLARE_SUBMITTER_CRT_FILE example_env, Socket) \<notin> set ?files" by simp
  have j: "json_dump example_env (fst (projr ?r)) = [97, 58, 120, 58, 122, 58]" by code_simp
  from sign_folders_signs_root[OF 1 2 3 4 5 6 7 8, of 5 "[2]" "- 3"]
  obtain sg c where se: "?r = Inr (sg, c)"
    and a0: "map_of (files_of (fst (sign_folders example_env (Dir ?files ?subdirs) 5 (Inr [2]) (- 3))))
       (NVFLARE_SIG_FILE example_env) = Some (File (json_dump example_env sg))"
    and b: "map_of (files_of (fst (sign_folders example_env (Dir ?files ?subdirs) 5 (Inr [2]) (- 3))))
       (NVFLARE_SUBMITTER_CRT_FILE example_env) = Some (File [2])"
    by (elim exE conjE)
  from se have "fst (projr ?r) = sg" by (simp only: sum.sel fst_conv)
  with j have "json_dump example_env sg = [97, 58, 120, 58, 122, 58]" by (simp only:)
  with a0 have a: "map_of (files_of (fst (sign_folders example_env (Dir ?files ?subdirs) 5 (Inr [2]) (- 3))))
       (NVFLARE_SIG_FILE example_env) = Some (File [97, 58, 120, 58, 122, 58])"
    by (simp only:)
  from sign_folders_signs_root[OF 1 2 3 4 5 6 7 8, of 5 "[2]" 0]
  have c: "map_of (files_of (fst (sign_folders example_env (Dir ?files ?subdirs) 5 (Inr [2]) 0)))
       (NVFLARE_SUBMITTER_CRT_FILE example_env) = Some (File [2])"
    by (elim exE conjE)
  from a b c show ?thesis unfolding t by (intro conjI)
qed


theorem sign_folders_records:
  assumes "sign_walk E key crt_file max_depth folder (0, 0) = (folder', (depth, calls), sg)"
    and "\<forall>e. sg \<noteq> Raise e"
    and "wf_dir folder"
    and "NVFLARE_SIG_FILE E \<noteq> NVFLARE_SUBMITTER_CRT_FILE E"
    and "i < nat depth"
  shows "\<exists>signatures.
      map_of (fst (os_walk folder' ! i)) (NVFLARE_SIG_FILE E) = Some (File (json_dump E signatures))
      \<and> (\<forall>sub\<in>set (snd (os_walk folder ! i)). \<exists>j data s.
            utf8_encode sub = Inr data
            \<and> sign_content E (Bytes data) key True (urandom E j) = Inr s
            \<and> map_of signatures sub = Some s)
      \<and> (\<forall>(f, e)\<in>set (fst (os_walk folder ! i)).
            f \<noteq> NVFLARE_SIG_FILE E \<and> f \<noteq> NVFLARE_SUBMITTER_CRT_FILE E \<longrightarrow>
            (\<exists>j data s. e = File data
               \<and> sign_content E (Bytes data) key True (urandom E j) = Inr s
               \<and> map_of signatures f = Some s))"
proof -
  let ?ls = "os_walk folder" and ?ls' = "os_walk folder'"
  from sign_walk_loop[of E key crt_file max_depth folder "(0, 0)"] assms(1)
  have loop: "sign_loop E key crt_file max_depth ?ls (0, 0) = (map fst ?ls', (depth, calls), sg)"
    by simp
  from sign_loop_visited[OF loop] assms(5) have il: "i < length ?ls" "length ?ls' = length ?ls"
    by auto
  have "i < nat (fst (depth, calls) - fst (0::int, 0::nat))" using assms(5) by simp
  from sign_loop_rounds[OF loop assms(2) this] obtain sti sti' sgi where
    round: "sign_dir E key crt_file max_depth (fst (?ls ! i)) (snd (?ls ! i)) sti
        = (map fst ?ls' ! i, sti', sgi)"
    and nr: "\<forall>e. sgi \<noteq> Raise e"
    by blast
  from il have out: "map fst ?ls' ! i = fst (?ls' ! i)" by simp
  from il have "?ls ! i \<in> set ?ls" by simp
  from wf_dir_os_walk[OF assms(3) this]
  have dist: "distinct (map fst (fst (?ls ! i)) @ snd (?ls ! i))" .
  show ?thesis
  proof (cases rule: sign_dir_cases[of E key crt_file max_depth "fst (?ls ! i)" "snd (?ls ! i)" sti])
    case (raise e files1 calls1)
    with round nr show ?thesis by auto
  next
    case (signed signatures calls1 data)
    from signed(5) round out assms(4)
    have m: "map_of (fst (?ls' ! i)) (NVFLARE_SIG_FILE E) = Some (File (json_dump E signatures))"
      by (auto simp: update_conv')
    note rec = sign_entries_recorded[OF signed(1) dist]
    have subs: "\<exists>j data s. utf8_encode sub = Inr data
            \<and> sign_content E (Bytes data) key True (urandom E j) = Inr s
            \<and> map_of signatures sub = Some s" if "sub \<in> set (snd (?ls ! i))" for sub
    proof -
      from rec that obtain j s where
        s: "sign_content E (Str sub) key True (urandom E j) = Inr s"
        and ms: "map_of signatures sub = Some s"
        by blast
      from sign_content_Str_bytes[OF s] ms show ?thesis by blast
    qed
    from m subs rec show ?thesis by blast
  qed
qed


theorem sign_all_keys:
  assumes "distinct (listdir content_folder)"
  shows "fst (sign_all E content_folder key) = content_folder
     \<and> (\<exists>signatures. snd (sign_all E content_folder key) = Inr signatures
          \<and> fst ` set signatures
              = {name. \<exists>data. (name, File data) \<in> set (files_of content_folder)})"
proof -
  from sign_all_loop_total[of E content_folder key "listdir content_folder" "([], 0)"]
  obtain acc where a: "sign_all_loop E content_folder key (listdir content_folder) ([], 0) = Inr acc"
    and k: "fst ` set (fst acc) = {f \<in> set (listdir content_folder). isfile content_folder f}"
    by auto
  from a k show ?thesis by (simp add: sign_all_def isfile_distinct[OF assms])
qed

theorem sign_all_keys_witness:
  "distinct (listdir (example_dir [10]))
   \<and> fst (sign_all example_env (example_dir [10]) 5) = example_dir [10]
   \<and> (\<exists>signatures. snd (sign_all example_env (example_dir [10]) 5) = Inr signatures
          \<and> fst ` set signatures
              = {name. \<exists>data. (name, File data) \<in> set (files_of (example_dir [10]))})"
proof -
  have d: "distinct (listdir (example_dir [10]))" by code_simp
  from sign_all_keys[OF d, of example_env 5] d show ?thesis by (intro conjI) blast+
qed


theorem reserved_names_skipped:
  "(sign_dir E key crt_file max_depth files folders st = (files', st', sg) \<and> (\<forall>e. sg \<noteq> Raise e)
      \<longrightarrow> (\<exists>signatures calls' data.
             sign_entries E key files folders (snd st) = Inr (signatures, calls')
             \<and> crt_file = Inr data
             \<and> files' = AList.update (NVFLARE_SUBMITTER_CRT_FILE E) (File data)
                  (AList.update (NVFLARE_SIG_FILE E) (File (json_dump E signatures)) files)
             \<and> NVFLARE_SIG_FILE E \<notin> fst ` set signatures
             \<and> NVFLARE_SUBMITTER_CRT_FILE E \<notin> fst ` set signatures))
   \<and> (isfile content_folder name
      \<longrightarrow> (\<exists>signatures. snd (sign_all E content_folder key) = Inr signatures
             \<and> name \<in> fst ` set signatures))
   \<and> (load_signatures E files folders = Some (manifest, cert)
      \<longrightarrow> verify_dir E pk (files, folders)
          = verify_checks E pk
              (restrict_keys (- {NVFLARE_SIG_FILE E, NVFLARE_SUBMITTER_CRT_FILE E}) manifest)
              cert files folders)"
proof (intro conjI impI)
  assume a: "sign_dir E key crt_file max_depth files folders st = (files', st', sg)
      \<and> (\<forall>e. sg \<noteq> Raise e)"
  show "\<exists>signatures calls' data.
             sign_entries E key files folders (snd st) = Inr (signatures, calls')
             \<and> crt_file = Inr data
             \<and> files' = AList.update (NVFLARE_SUBMITTER_CRT_FILE E) (File data)
                  (AList.update (NVFLARE_SIG_FILE E) (File (json_dump E signatures)) files)
             \<and> NVFLARE_SIG_FILE E \<notin> fst ` set signatures
             \<and> NVFLARE_SUBMITTER_CRT_FILE E \<notin> fst ` set signatures"
  proof (cases rule: sign_dir_cases[of E key crt_file max_depth files folders st])
    case (raise e files1 calls1)
    with a show ?thesis by auto
  next
    case (signed signatures calls1 data)
    from sign_entries_keys[OF signed(1)] signed(3,4)
    have "NVFLARE_SIG_FILE E \<notin> fst ` set signatures"
      "NVFLARE_SUBMITTER_CRT_FILE E \<notin> fst ` set signatures" by auto
    with signed a show ?thesis by auto
  qed
next
  assume f: "isfile content_folder name"
  then obtain e where "map_of (files_of content_folder) name = Some e"
    by (auto simp: isfile_def split: option.splits)
  then have "(name, e) \<in> set (files_of content_folder)" by (rule map_of_SomeD)
  then have "name \<in> set (listdir content_folder)" by (force simp: listdir_def)
  with f sign_all_loop_total[of E content_folder key "listdir content_folder" "([], 0)"]
  show "\<exists>signatures. snd (sign_all E content_folder key) = Inr signatures
             \<and> name \<in> fst ` set signatures"
    by (auto simp: sign_all_def)
next
  assume l: "load_signatures E files folders = Some (manifest, cert)"
  from load_signatures_folders[OF l]
  have fo: "set folders \<subseteq> - {NVFLARE_SIG_FILE E, NVFLARE_SUBMITTER_CRT_FILE E}" by auto
  have fi: "set (map fst files) - {NVFLARE_SIG_FILE E, NVFLARE_SUBMITTER_CRT_FILE E}
      \<subseteq> - {NVFLARE_SIG_FILE E, NVFLARE_SUBMITTER_CRT_FILE E}" by auto
  from verify_checks_restrict[OF fi fo, of pk manifest cert] l
  show "verify_dir E pk (files, folders)
          = verify_checks E pk
              (restrict_keys (- {NVFLARE_SIG_FILE E, NVFLARE_SUBMITTER_CRT_FILE E}) manifest)
              cert files folders"
    by (auto simp: verify_dir_def)
qed

theorem sign_all_reserved_counterexample:
  "(case snd (sign_all example_env (example_dir [10]) 5) of
      Inl e \<Rightarrow> []
    | Inr signatures \<Rightarrow> map fst signatures)
   = [str_of ''a'', NVFLARE_SIG_FILE example_env, NVFLARE_SUBMITTER_CRT_FILE example_env]"
  by code_simp


end
